theory Spec2Isabelle
  imports Main "HOL-Library.Sublist" "HOL-Library.Monad_Syntax"
begin

section \<open>Python strings\<close>

text \<open>
  A Python \<open>str\<close> is modelled as a \<open>string\<close>: a list of characters whose code points are
  below 256 (ASCII and Latin-1). On this range \<open>str.lower\<close> moves \<open>A..Z\<close> and the
  accented capitals \<open>0xC0..0xDE\<close> (without the multiplication sign \<open>0xD7\<close>) up by 32 and
  \<open>str.strip\<close> removes the characters for which \<open>str.isspace\<close> holds.
\<close>

definition py_lower_char :: "char \<Rightarrow> char" where
  "py_lower_char c =
     (let n = (of_char c :: nat)
      in if (65 \<le> n \<and> n \<le> 90) \<or> (192 \<le> n \<and> n \<le> 222 \<and> n \<noteq> 215)
         then char_of (n + 32) else c)"

definition py_lower :: "string \<Rightarrow> string" where
  "py_lower s = map py_lower_char s"

definition py_isspace :: "char \<Rightarrow> bool" where
  "py_isspace c =
     (let n = (of_char c :: nat)
      in (9 \<le> n \<and> n \<le> 13) \<or> (28 \<le> n \<and> n \<le> 32) \<or> n = 133 \<or> n = 160)"

definition py_lstrip :: "string \<Rightarrow> string" where
  "py_lstrip s = dropWhile py_isspace s"

definition py_rstrip :: "string \<Rightarrow> string" where
  "py_rstrip s = rev (dropWhile py_isspace (rev s))"

definition py_strip :: "string \<Rightarrow> string" where
  "py_strip s = py_rstrip (py_lstrip s)"

text \<open>\<open>s.startswith(p)\<close> and \<open>s.endswith(p)\<close>.\<close>

definition py_startswith :: "string \<Rightarrow> string \<Rightarrow> bool" where
  "py_startswith s p = prefix p s"

definition py_endswith :: "string \<Rightarrow> string \<Rightarrow> bool" where
  "py_endswith s p = suffix p s"

section \<open>Domain matching\<close>

text \<open>
  \<^verbatim>\<open>
  def _domain_matches(cookie_domain, request_domain):
      if not cookie_domain: return False
      request_domain = request_domain.lower()
      cookie_domain = cookie_domain.lower()
      if request_domain == cookie_domain: return True
      if request_domain.endswith('.' + cookie_domain): return True
      return False
  \<close>
\<close>

definition domain_matches :: "string \<Rightarrow> string \<Rightarrow> bool" where
  "domain_matches cookie_domain request_domain =
     (if cookie_domain = [] then False
      else let request_domain' = py_lower request_domain;
               cookie_domain' = py_lower cookie_domain
           in if request_domain' = cookie_domain' then True
              else if py_endswith request_domain' (CHR ''.'' # cookie_domain') then True
              else False)"

section \<open>Python dictionaries\<close>

text \<open>
  A \<open>dict\<close> keeps its keys in insertion order, and the composed cookie header depends on
  that order, so a dictionary is an association list: \<open>d[k] = v\<close> replaces the value of
  a key that is present, in place, and appends a new key at the end;
  \<open>d.update(other)\<close> does so for every item of \<open>other\<close>, in order.
\<close>

type_synonym ('k, 'v) pydict = "('k \<times> 'v) list"

fun dict_set :: "'k \<Rightarrow> 'v \<Rightarrow> ('k, 'v) pydict \<Rightarrow> ('k, 'v) pydict" where
  "dict_set k v [] = [(k, v)]"
| "dict_set k v ((k', v') # d) =
     (if k' = k then (k', v) # d else (k', v') # dict_set k v d)"

definition dict_update :: "('k, 'v) pydict \<Rightarrow> ('k, 'v) pydict \<Rightarrow> ('k, 'v) pydict" where
  "dict_update d other = fold (\<lambda>(k, v) acc. dict_set k v acc) other d"

definition dict_contains :: "('k, 'v) pydict \<Rightarrow> 'k \<Rightarrow> bool" where
  "dict_contains d k = (map_of d k \<noteq> None)"

text \<open>The keys of a dictionary are pairwise different.\<close>

definition wf_dict :: "('k, 'v) pydict \<Rightarrow> bool" where
  "wf_dict d = distinct (map fst d)"

type_synonym cookie_map = "(string, string) pydict"
type_synonym cookie_store = "(string, cookie_map) pydict"

definition wf_store :: "cookie_store \<Rightarrow> bool" where
  "wf_store store = (wf_dict store \<and> list_all (\<lambda>(d, cm). wf_dict cm) store)"

fun py_join :: "string \<Rightarrow> string list \<Rightarrow> string" where
  "py_join sep [] = []"
| "py_join sep [x] = x"
| "py_join sep (x # y # ys) = x @ sep @ py_join sep (y # ys)"

section \<open>Header composition\<close>

text \<open>
  \<open>_prepare_headers(headers, cookies, domain)\<close>, the same in \<open>AsyncCronetClient\<close> and in
  \<open>CronetClient\<close>. The argument \<open>headers\<close> is \<open>None\<close>, a dictionary or a list of pairs;
  \<open>cookies\<close> is \<open>None\<close> or a dictionary.
\<close>

datatype headers_arg =
    HeadersNone
  | HeadersDict "(string \<times> string) list"
  | HeadersList "(string \<times> string) list"

fun headers_list_of :: "headers_arg \<Rightarrow> (string \<times> string) list" where
  "headers_list_of HeadersNone = []"
| "headers_list_of (HeadersDict d) = d"
| "headers_list_of (HeadersList l) = l"

text \<open>
  The first loop, with its two accumulators:
  \<^verbatim>\<open>
  for k, v in headers_list:
      k_lower = k.lower()
      if k_lower == 'cookie': continue
      elif k_lower == 'priority': priority_headers.append([k, v])
      else: normal_headers.append([k, v])
  \<close>
\<close>

fun split_headers ::
  "(string \<times> string) list \<Rightarrow> (string \<times> string) list \<Rightarrow> (string \<times> string) list
     \<Rightarrow> (string \<times> string) list \<times> (string \<times> string) list" where
  "split_headers [] normal_headers priority_headers = (normal_headers, priority_headers)"
| "split_headers ((k, v) # rest) normal_headers priority_headers =
     (let k_lower = py_lower k
      in if k_lower = ''cookie'' then split_headers rest normal_headers priority_headers
         else if k_lower = ''priority''
           then split_headers rest normal_headers (priority_headers @ [(k, v)])
         else split_headers rest (normal_headers @ [(k, v)]) priority_headers)"

text \<open>
  The second loop:
  \<^verbatim>\<open>
  for cookie_domain, domain_cookies in self._cookies.items():
      if cookie_domain == domain or _domain_matches(cookie_domain, domain):
          merged_cookies.update(domain_cookies)
  \<close>
\<close>

fun merge_session_cookies :: "cookie_store \<Rightarrow> string \<Rightarrow> cookie_map \<Rightarrow> cookie_map" where
  "merge_session_cookies [] domain merged_cookies = merged_cookies"
| "merge_session_cookies ((cookie_domain, domain_cookies) # rest) domain merged_cookies =
     (if cookie_domain = domain \<or> domain_matches cookie_domain domain
      then merge_session_cookies rest domain (dict_update merged_cookies domain_cookies)
      else merge_session_cookies rest domain merged_cookies)"

text \<open>\<open>if cookies:\<close> holds for a dictionary that is not empty.\<close>

fun cookies_given :: "cookie_map option \<Rightarrow> bool" where
  "cookies_given None = False"
| "cookies_given (Some c) = (c \<noteq> [])"

definition merged_cookies :: "cookie_store \<Rightarrow> cookie_map option \<Rightarrow> string \<Rightarrow> cookie_map" where
  "merged_cookies store cookies domain =
     (let merged = merge_session_cookies store domain []
      in if cookies_given cookies then dict_update merged (the cookies) else merged)"

definition cookie_str :: "cookie_map \<Rightarrow> string" where
  "cookie_str merged = py_join ''; '' (map (\<lambda>(k, v). k @ ''='' @ v) merged)"

definition prepare_headers ::
  "cookie_store \<Rightarrow> headers_arg \<Rightarrow> cookie_map option \<Rightarrow> string \<Rightarrow> (string \<times> string) list" where
  "prepare_headers store headers cookies domain =
     (let headers_list = headers_list_of headers;
          (normal_headers, priority_headers) = split_headers headers_list [] [];
          merged = merged_cookies store cookies domain;
          result = normal_headers;
          result = (if merged \<noteq> [] then result @ [(''cookie'', cookie_str merged)] else result)
      in result @ priority_headers)"

text \<open>
  The stored domains a request to \<open>domain\<close> reads: those the second loop lets through,
  in the store's order.
\<close>

definition applicable :: "cookie_store \<Rightarrow> string \<Rightarrow> cookie_store" where
  "applicable store domain =
     filter (\<lambda>(cookie_domain, domain_cookies).
        cookie_domain = domain \<or> domain_matches cookie_domain domain) store"

section \<open>Parsing Set-Cookie values\<close>

text \<open>
  The operations of the parser that can raise in Python are branches of the model:
  an index out of range, a failed tuple unpacking, a missing dictionary key.
\<close>

datatype py_error = IndexError | ValueError | KeyError

text \<open>\<open>s.split(sep)\<close> for a separator of one character: never the empty list.\<close>

fun py_split :: "char \<Rightarrow> string \<Rightarrow> string list" where
  "py_split sep [] = [[]]"
| "py_split sep (c # cs) =
     (if c = sep then [] # py_split sep cs
      else (case py_split sep cs of
              [] \<Rightarrow> [[c]]
            | w # ws \<Rightarrow> (c # w) # ws))"

text \<open>\<open>s.split(sep, 1)\<close>: one piece when \<open>sep\<close> is absent, two otherwise.\<close>

fun py_split1 :: "char \<Rightarrow> string \<Rightarrow> string list" where
  "py_split1 sep [] = [[]]"
| "py_split1 sep (c # cs) =
     (if c = sep then [[], cs]
      else (case py_split1 sep cs of
              [] \<Rightarrow> [[c]]
            | w # ws \<Rightarrow> (c # w) # ws))"

text \<open>
  The inner loop of \<open>_parse_set_cookie\<close>, over \<open>parts[1:]\<close>:
  \<^verbatim>\<open>
  domain = ""
  for part in parts[1:]:
      part = part.strip()
      if part.lower().startswith('domain='):
          domain = part.split('=', 1)[1].strip().lower()
          if domain.startswith('.'):
              domain = domain[1:]
          break
  \<close>
\<close>

fun find_domain :: "string list \<Rightarrow> py_error + string" where
  "find_domain [] = Inr []"
| "find_domain (part # rest) =
     (let part' = py_strip part
      in if py_startswith (py_lower part') ''domain=''
         then (case py_split1 CHR ''='' part' of
                 _ # x # _ \<Rightarrow>
                   (let domain = py_lower (py_strip x)
                    in Inr (if py_startswith domain ''.'' then drop 1 domain else domain))
               | _ \<Rightarrow> Inl IndexError)
         else find_domain rest)"

text \<open>
  The body of the outer loop: the triples one raw value adds to \<open>cookies\<close>.
  \<^verbatim>\<open>
  if '=' in value:
      parts = value.split(';')
      cookie_part = parts[0].strip()
      if '=' in cookie_part:
          name, val = cookie_part.split('=', 1)
          name = name.strip()
          val = val.strip()
          ...
          cookies.append((name, val, domain))
  \<close>
\<close>

definition parse_cookie_value :: "string \<Rightarrow> py_error + (string \<times> string \<times> string) list" where
  "parse_cookie_value value =
     (if CHR ''='' \<in> set value
      then (case py_split CHR '';'' value of
              [] \<Rightarrow> Inl IndexError
            | p0 # rest \<Rightarrow>
                (let cookie_part = py_strip p0
                 in if CHR ''='' \<in> set cookie_part
                    then (case py_split1 CHR ''='' cookie_part of
                            [name, val] \<Rightarrow>
                              (case find_domain rest of
                                 Inl e \<Rightarrow> Inl e
                               | Inr domain \<Rightarrow> Inr [(py_strip name, py_strip val, domain)])
                          | _ \<Rightarrow> Inl ValueError)
                    else Inr []))
      else Inr [])"

fun parse_set_cookie :: "string list \<Rightarrow> py_error + (string \<times> string \<times> string) list" where
  "parse_set_cookie [] = Inr []"
| "parse_set_cookie (value # rest) =
     (case parse_cookie_value value of
        Inl e \<Rightarrow> Inl e
      | Inr new \<Rightarrow>
          (case parse_set_cookie rest of
             Inl e \<Rightarrow> Inl e
           | Inr cookies \<Rightarrow> Inr (new @ cookies)))"

section \<open>The cookie store\<close>

text \<open>
  \<open>self._cookies\<close> maps a domain to the dictionary of its cookies.
  \<^verbatim>\<open>
  if store_domain not in self._cookies:
      self._cookies[store_domain] = {}
  self._cookies[store_domain][cookie_name] = cookie_value
  \<close>
\<close>

definition store_cookie ::
  "cookie_store \<Rightarrow> string \<Rightarrow> string \<Rightarrow> string \<Rightarrow> py_error + cookie_store" where
  "store_cookie store store_domain cookie_name cookie_value =
     (let store' = (if \<not> dict_contains store store_domain
                    then dict_set store_domain [] store else store)
      in case map_of store' store_domain of
           None \<Rightarrow> Inl KeyError
         | Some domain_cookies \<Rightarrow>
             Inr (dict_set store_domain (dict_set cookie_name cookie_value domain_cookies) store'))"

text \<open>
  \<^verbatim>\<open>
  for cookie_name, cookie_value, cookie_domain in parsed_cookies:
      store_domain = cookie_domain if cookie_domain else request_domain
      ...
  \<close>
\<close>

fun store_parsed_cookies ::
  "cookie_store \<Rightarrow> (string \<times> string \<times> string) list \<Rightarrow> string \<Rightarrow> py_error + cookie_store" where
  "store_parsed_cookies store [] request_domain = Inr store"
| "store_parsed_cookies store ((cookie_name, cookie_value, cookie_domain) # rest) request_domain =
     (let store_domain = (if cookie_domain \<noteq> [] then cookie_domain else request_domain)
      in case store_cookie store store_domain cookie_name cookie_value of
           Inl e \<Rightarrow> Inl e
         | Inr store' \<Rightarrow> store_parsed_cookies store' rest request_domain)"

text \<open>
  \<open>_update_cookies_from_response(headers, request_domain)\<close>: the response headers map a
  name to the list of its values.
  \<^verbatim>\<open>
  for name, values in headers.items():
      if name.lower() == 'set-cookie':
          parsed_cookies = _parse_set_cookie(values)
          for ... in parsed_cookies: ...
  \<close>
\<close>

fun update_cookies_from_response ::
  "cookie_store \<Rightarrow> (string \<times> string list) list \<Rightarrow> string \<Rightarrow> py_error + cookie_store" where
  "update_cookies_from_response store [] request_domain = Inr store"
| "update_cookies_from_response store ((name, values) # rest) request_domain =
     (if py_lower name = ''set-cookie''
      then (case parse_set_cookie values of
              Inl e \<Rightarrow> Inl e
            | Inr parsed_cookies \<Rightarrow>
                (case store_parsed_cookies store parsed_cookies request_domain of
                   Inl e \<Rightarrow> Inl e
                 | Inr store' \<Rightarrow> update_cookies_from_response store' rest request_domain))
      else update_cookies_from_response store rest request_domain)"

text \<open>
  The cookies given to \<open>request\<close> are kept under the request's domain:
  \<^verbatim>\<open>
  if cookies:
      if domain not in self._cookies:
          self._cookies[domain] = {}
      self._cookies[domain].update(cookies)
  \<close>
\<close>

definition keep_request_cookies ::
  "cookie_store \<Rightarrow> cookie_map option \<Rightarrow> string \<Rightarrow> py_error + cookie_store" where
  "keep_request_cookies store cookies domain =
     (if cookies_given cookies
      then (let store' = (if \<not> dict_contains store domain then dict_set domain [] store else store)
            in case map_of store' domain of
                 None \<Rightarrow> Inl KeyError
               | Some domain_cookies \<Rightarrow>
                   Inr (dict_set domain (dict_update domain_cookies (the cookies)) store'))
      else Inr store)"

text \<open>
  \<open>get_cookies_for_domain(domain)\<close> and the property \<open>cookies\<close>, as values (what they
  share with the store is the subject of the heap model below).
\<close>

definition get_cookies_for_domain :: "cookie_store \<Rightarrow> string \<Rightarrow> cookie_map" where
  "get_cookies_for_domain store domain =
     (case map_of store (py_lower domain) of None \<Rightarrow> [] | Some domain_cookies \<Rightarrow> domain_cookies)"

definition all_cookies :: "cookie_store \<Rightarrow> cookie_store" where
  "all_cookies store = map (\<lambda>(domain, cookies). (domain, cookies)) store"

text \<open>
  For stating what the parser finds: the trimmed text after \<open>domain=\<close> of the first
  segment, after the name-value segment, that starts with \<open>domain=\<close> in any case; and
  all the triples that the \<open>Set-Cookie\<close> headers of a response yield, in order.
\<close>

definition domain_attribute :: "string \<Rightarrow> string option" where
  "domain_attribute value =
     map_option (\<lambda>part. py_strip (drop 7 (py_strip part)))
       (find (\<lambda>part. py_startswith (py_lower (py_strip part)) ''domain='')
          (tl (py_split CHR '';'' value)))"

fun response_cookies :: "(string \<times> string list) list \<Rightarrow> (string \<times> string \<times> string) list" where
  "response_cookies [] = []"
| "response_cookies ((name, values) # rest) =
     (if py_lower name = ''set-cookie''
      then (case parse_set_cookie values of Inl e \<Rightarrow> [] | Inr parsed \<Rightarrow> parsed)
             @ response_cookies rest
      else response_cookies rest)"

text \<open>The two properties of a store key that the data model names.\<close>

definition keys_lowered :: "cookie_store \<Rightarrow> bool" where
  "keys_lowered store = list_all (\<lambda>(domain, cookies). py_lower domain = domain) store"

definition keys_undotted :: "cookie_store \<Rightarrow> bool" where
  "keys_undotted store = list_all (\<lambda>(domain, cookies). \<not> py_startswith domain ''.'') store"

section \<open>A request\<close>

text \<open>
  The client holds the session id and the store. \<open>request\<close> raises when the session id is
  \<open>None\<close> or empty; \<open>_extract_domain(url)\<close> is \<open>urlparse(url).netloc.lower()\<close>, and the
  model takes the \<open>netloc\<close> that \<open>urlparse\<close> finds in the URL as its argument.
\<close>

record client =
  client_session_id :: "string option"
  client_cookies :: cookie_store

datatype request_error = RequestError | Raised py_error

definition extract_domain :: "string \<Rightarrow> string" where
  "extract_domain netloc = py_lower netloc"

fun session_established :: "client \<Rightarrow> bool" where
  "session_established c =
     (case client_session_id c of None \<Rightarrow> False | Some sid \<Rightarrow> sid \<noteq> [])"

text \<open>
  Of the body arguments only their effect on the headers is modelled: with \<open>json_data\<close>,
  or else with \<open>data\<close>, a \<open>content-type\<close> header is appended unless one is present.
\<close>

datatype body_arg = NoBody | JsonData | FormData

definition has_content_type :: "(string \<times> string) list \<Rightarrow> bool" where
  "has_content_type headers = list_ex (\<lambda>(k, v). py_lower k = ''content-type'') headers"

fun with_content_type :: "(string \<times> string) list \<Rightarrow> body_arg \<Rightarrow> (string \<times> string) list" where
  "with_content_type headers NoBody = headers"
| "with_content_type headers JsonData =
     (if \<not> has_content_type headers
      then headers @ [(''content-type'', ''application/json'')] else headers)"
| "with_content_type headers FormData =
     (if \<not> has_content_type headers
      then headers @ [(''content-type'', ''application/x-www-form-urlencoded'')] else headers)"

text \<open>The \<open>headers\<close> entry of the payload, built from the store as it is at that point.\<close>

definition payload_headers ::
  "cookie_store \<Rightarrow> string \<Rightarrow> headers_arg \<Rightarrow> cookie_map option \<Rightarrow> body_arg
     \<Rightarrow> (string \<times> string) list" where
  "payload_headers store domain headers cookies body =
     prepare_headers store (HeadersList (with_content_type (headers_list_of headers) body))
       cookies domain"

text \<open>
  \<open>bytes.fromhex(body_hex)\<close>: ASCII whitespace is skipped before each byte, a byte is
  two hexadecimal digits next to each other, and anything else raises \<open>ValueError\<close>.
\<close>

definition hex_digit :: "char \<Rightarrow> nat option" where
  "hex_digit c =
     (let n = (of_char c :: nat)
      in if 48 \<le> n \<and> n \<le> 57 then Some (n - 48)
         else if 97 \<le> n \<and> n \<le> 102 then Some (n - 87)
         else if 65 \<le> n \<and> n \<le> 70 then Some (n - 55)
         else None)"

definition ascii_space :: "char \<Rightarrow> bool" where
  "ascii_space c = (let n = (of_char c :: nat) in (9 \<le> n \<and> n \<le> 13) \<or> n = 32)"

fun bytes_fromhex :: "string \<Rightarrow> py_error + nat list" where
  "bytes_fromhex [] = Inr []"
| "bytes_fromhex [c] = (if ascii_space c then Inr [] else Inl ValueError)"
| "bytes_fromhex (c # d # rest) =
     (if ascii_space c then bytes_fromhex (d # rest)
      else (case (hex_digit c, hex_digit d) of
              (Some hi, Some lo) \<Rightarrow>
                (case bytes_fromhex rest of
                   Inl e \<Rightarrow> Inl e
                 | Inr bs \<Rightarrow> Inr ((16 * hi + lo) # bs))
            | _ \<Rightarrow> Inl ValueError))"

text \<open>
  The transport is a parameter: \<open>send\<close> maps the outbound headers to the headers and the
  hex-encoded body of the response, or to \<open>None\<close> when the remote call fails or its answer
  cannot be read (all of that happens before the response cookies are taken in). The
  result is the client after the call together with the error raised or the response
  headers and body. The store is written before the request is sent, so those cookies
  stay when the call fails. The cookies of the response are taken in before the body is
  decoded:
  \<^verbatim>\<open>
  self._update_cookies_from_response(resp_headers, domain)
  body_hex = response_data.get("body", "")
  if body_hex:
      content_bytes = bytes.fromhex(body_hex)
  else:
      content_bytes = b""
  \<close>
  so a body that is not hexadecimal makes the call raise \<open>RequestError\<close> (every exception
  inside the \<open>try\<close> is turned into one) with the response cookies already in the store.
  Taking the cookies in never raises, as is proved below, so the branch for an error
  there is never reached.
\<close>

definition request ::
  "((string \<times> string) list \<Rightarrow> ((string \<times> string list) list \<times> string) option) \<Rightarrow> client
     \<Rightarrow> string \<Rightarrow> headers_arg \<Rightarrow> cookie_map option \<Rightarrow> body_arg
     \<Rightarrow> client \<times> (request_error + (string \<times> string list) list \<times> nat list)" where
  "request send c netloc headers cookies body =
     (if \<not> session_established c then (c, Inl RequestError)
      else
        let domain = extract_domain netloc
        in case keep_request_cookies (client_cookies c) cookies domain of
             Inl e \<Rightarrow> (c, Inl (Raised e))
           | Inr store1 \<Rightarrow>
               (let c1 = c\<lparr>client_cookies := store1\<rparr>
                in case send (payload_headers store1 domain headers cookies body) of
                     None \<Rightarrow> (c1, Inl RequestError)
                   | Some (resp_headers, body_hex) \<Rightarrow>
                       (case update_cookies_from_response store1 resp_headers domain of
                          Inl e \<Rightarrow> (c1, Inl RequestError)
                        | Inr store2 \<Rightarrow>
                            (let c2 = c1\<lparr>client_cookies := store2\<rparr>
                             in case (if body_hex \<noteq> [] then bytes_fromhex body_hex
                                      else Inr []) of
                                  Inl e \<Rightarrow> (c2, Inl RequestError)
                                | Inr content_bytes \<Rightarrow>
                                    (c2, Inr (resp_headers, content_bytes))))))"

text \<open>A transport that answers every request with the same response headers and body.\<close>

definition fixed_transport ::
  "(string \<times> string list) list \<Rightarrow> string \<Rightarrow> (string \<times> string) list
     \<Rightarrow> ((string \<times> string list) list \<times> string) option" where
  "fixed_transport resp_headers body_hex headers = Some (resp_headers, body_hex)"

section \<open>Objects and references\<close>

text \<open>
  Dictionaries and lists are objects, and a variable holds a reference to one. To say what
  a caller can reach through a returned value, and what \<open>_prepare_headers\<close> writes, the
  objects live in a heap: a list of objects, a reference being an index, a new object
  going to the end. The store \<open>self._cookies\<close> is a dictionary from a domain to the
  reference of the dictionary of its cookies.
\<close>

type_synonym ref = nat

datatype obj =
    StrDict "(string, string) pydict"
  | StoreDict "(string, ref) pydict"
  | PairList "(string \<times> string) list"

type_synonym heap = "obj list"

definition h_alloc :: "heap \<Rightarrow> obj \<Rightarrow> heap \<times> ref" where
  "h_alloc h ob = (h @ [ob], length h)"

definition h_read :: "heap \<Rightarrow> ref \<Rightarrow> obj option" where
  "h_read h r = (if r < length h then Some (h ! r) else None)"

definition h_write :: "heap \<Rightarrow> ref \<Rightarrow> obj \<Rightarrow> heap option" where
  "h_write h r ob = (if r < length h then Some (h[r := ob]) else None)"

text \<open>Reading an object that has to be of one kind; any other is a failure.\<close>

definition h_read_dict :: "heap \<Rightarrow> ref \<Rightarrow> (string, string) pydict option" where
  "h_read_dict h r = (case h_read h r of Some (StrDict d) \<Rightarrow> Some d | _ \<Rightarrow> None)"

definition h_read_store :: "heap \<Rightarrow> ref \<Rightarrow> (string, ref) pydict option" where
  "h_read_store h r = (case h_read h r of Some (StoreDict items) \<Rightarrow> Some items | _ \<Rightarrow> None)"

definition h_read_list :: "heap \<Rightarrow> ref \<Rightarrow> (string \<times> string) list option" where
  "h_read_list h r = (case h_read h r of Some (PairList l) \<Rightarrow> Some l | _ \<Rightarrow> None)"

text \<open>
  The store a reference stands for, when the reference and those inside it lead to
  dictionaries; and the same for the two arguments of \<open>_prepare_headers\<close>.
\<close>

fun deref_items :: "heap \<Rightarrow> (string \<times> ref) list \<Rightarrow> cookie_store option" where
  "deref_items h [] = Some []"
| "deref_items h ((domain, r) # rest) =
     do { cookies \<leftarrow> h_read_dict h r;
          store \<leftarrow> deref_items h rest;
          Some ((domain, cookies) # store) }"

definition store_of :: "heap \<Rightarrow> ref \<Rightarrow> cookie_store option" where
  "store_of h r = do { items \<leftarrow> h_read_store h r; deref_items h items }"

datatype headers_ref = HeadersRefNone | HeadersRefDict ref | HeadersRefList ref

fun headers_of :: "heap \<Rightarrow> headers_ref \<Rightarrow> headers_arg option" where
  "headers_of h HeadersRefNone = Some HeadersNone"
| "headers_of h (HeadersRefDict r) = map_option HeadersDict (h_read_dict h r)"
| "headers_of h (HeadersRefList r) = map_option HeadersList (h_read_list h r)"

fun cookies_of :: "heap \<Rightarrow> ref option \<Rightarrow> cookie_map option option" where
  "cookies_of h None = Some None"
| "cookies_of h (Some r) = map_option Some (h_read_dict h r)"

subsection \<open>Reading the store\<close>

text \<open>
  The property \<open>cookies\<close>:
  \<^verbatim>\<open>
  return {domain: cookies.copy() for domain, cookies in self._cookies.items()}
  \<close>
  Every \<open>copy()\<close> is a new object, and so is the dictionary returned.
\<close>

fun copy_items :: "heap \<Rightarrow> (string \<times> ref) list \<Rightarrow> (heap \<times> (string \<times> ref) list) option" where
  "copy_items h [] = Some (h, [])"
| "copy_items h ((domain, r) # rest) =
     do { cookies \<leftarrow> h_read_dict h r;
          let (h1, r') = h_alloc h (StrDict cookies);
          (h2, items) \<leftarrow> copy_items h1 rest;
          Some (h2, (domain, r') # items) }"

definition h_cookies :: "heap \<Rightarrow> ref \<Rightarrow> (heap \<times> ref) option" where
  "h_cookies h self_cookies =
     do { items \<leftarrow> h_read_store h self_cookies;
          (h', items') \<leftarrow> copy_items h items;
          Some (h_alloc h' (StoreDict items')) }"

text \<open>
  \<^verbatim>\<open>
  def get_cookies_for_domain(self, domain):
      return self._cookies.get(domain.lower(), {}).copy()
  \<close>
  The default \<open>{}\<close> is a new object, and the copy is another.
\<close>

definition h_get_cookies_for_domain :: "heap \<Rightarrow> ref \<Rightarrow> string \<Rightarrow> (heap \<times> ref) option" where
  "h_get_cookies_for_domain h self_cookies domain =
     do { items \<leftarrow> h_read_store h self_cookies;
          let (h1, dflt) = h_alloc h (StrDict []);
          let found = (case map_of items (py_lower domain) of None \<Rightarrow> dflt | Some r \<Rightarrow> r);
          cookies \<leftarrow> h_read_dict h1 found;
          Some (h_alloc h1 (StrDict cookies)) }"

subsection \<open>Header composition on objects\<close>

text \<open>
  \<open>_prepare_headers\<close> once more, now with every list and dictionary it makes as an object
  and every \<open>append\<close>, \<open>update\<close> and \<open>extend\<close> as a write to one.
\<close>

definition h_append :: "heap \<Rightarrow> ref \<Rightarrow> string \<times> string \<Rightarrow> heap option" where
  "h_append h r x = do { l \<leftarrow> h_read_list h r; h_write h r (PairList (l @ [x])) }"

definition h_extend :: "heap \<Rightarrow> ref \<Rightarrow> ref \<Rightarrow> heap option" where
  "h_extend h r other =
     do { l \<leftarrow> h_read_list h r; l' \<leftarrow> h_read_list h other; h_write h r (PairList (l @ l')) }"

definition h_update :: "heap \<Rightarrow> ref \<Rightarrow> ref \<Rightarrow> heap option" where
  "h_update h r other =
     do { d \<leftarrow> h_read_dict h r; d' \<leftarrow> h_read_dict h other;
          h_write h r (StrDict (dict_update d d')) }"

fun h_headers_list :: "heap \<Rightarrow> headers_ref \<Rightarrow> (heap \<times> ref) option" where
  "h_headers_list h HeadersRefNone = Some (h_alloc h (PairList []))"
| "h_headers_list h (HeadersRefDict r) =
     do { d \<leftarrow> h_read_dict h r; Some (h_alloc h (PairList d)) }"
| "h_headers_list h (HeadersRefList r) =
     do { l \<leftarrow> h_read_list h r; Some (h_alloc h (PairList l)) }"

fun h_split_headers :: "heap \<Rightarrow> (string \<times> string) list \<Rightarrow> ref \<Rightarrow> ref \<Rightarrow> heap option" where
  "h_split_headers h [] normal_headers priority_headers = Some h"
| "h_split_headers h ((k, v) # rest) normal_headers priority_headers =
     (let k_lower = py_lower k
      in if k_lower = ''cookie'' then h_split_headers h rest normal_headers priority_headers
         else if k_lower = ''priority''
           then do { h' \<leftarrow> h_append h priority_headers (k, v);
                     h_split_headers h' rest normal_headers priority_headers }
         else do { h' \<leftarrow> h_append h normal_headers (k, v);
                   h_split_headers h' rest normal_headers priority_headers })"

fun h_merge_session_cookies :: "heap \<Rightarrow> (string \<times> ref) list \<Rightarrow> string \<Rightarrow> ref \<Rightarrow> heap option" where
  "h_merge_session_cookies h [] domain merged_ref = Some h"
| "h_merge_session_cookies h ((cookie_domain, domain_cookies) # rest) domain merged_ref =
     (if cookie_domain = domain \<or> domain_matches cookie_domain domain
      then do { h' \<leftarrow> h_update h merged_ref domain_cookies;
                h_merge_session_cookies h' rest domain merged_ref }
      else h_merge_session_cookies h rest domain merged_ref)"

text \<open>\<open>if cookies:\<close> on a reference: not \<open>None\<close>, and the dictionary not empty.\<close>

fun h_truthy :: "heap \<Rightarrow> ref option \<Rightarrow> bool option" where
  "h_truthy h None = Some False"
| "h_truthy h (Some r) = map_option (\<lambda>c. c \<noteq> []) (h_read_dict h r)"

definition h_prepare_headers ::
  "heap \<Rightarrow> ref \<Rightarrow> headers_ref \<Rightarrow> ref option \<Rightarrow> string \<Rightarrow> (heap \<times> ref) option" where
  "h_prepare_headers h self_cookies headers cookies domain =
     do { (h1, headers_list) \<leftarrow> h_headers_list h headers;
          let (h2, normal_headers) = h_alloc h1 (PairList []);
          let (h3, priority_headers) = h_alloc h2 (PairList []);
          entries \<leftarrow> h_read_list h3 headers_list;
          h4 \<leftarrow> h_split_headers h3 entries normal_headers priority_headers;
          let (h5, merged_ref) = h_alloc h4 (StrDict []);
          items \<leftarrow> h_read_store h5 self_cookies;
          h6 \<leftarrow> h_merge_session_cookies h5 items domain merged_ref;
          given \<leftarrow> h_truthy h6 cookies;
          h7 \<leftarrow> (if given then h_update h6 merged_ref (the cookies) else Some h6);
          let result = normal_headers;
          merged \<leftarrow> h_read_dict h7 merged_ref;
          h8 \<leftarrow> (if merged \<noteq> [] then h_append h7 result (''cookie'', cookie_str merged)
                 else Some h7);
          h9 \<leftarrow> h_extend h8 result priority_headers;
          Some (h9, result) }"

section \<open>Facts about strings and dictionaries\<close>

lemma py_lower_length: "length (py_lower s) = length s"
  by (simp add: py_lower_def)

lemma py_lower_append: "py_lower (s @ t) = py_lower s @ py_lower t"
  by (simp add: py_lower_def)

lemma py_lower_char_x: "py_lower_char CHR ''x'' = CHR ''x''"
  by code_simp

lemma py_lower_cookie: "py_lower ''cookie'' = ''cookie''"
  by code_simp

lemma suffix_same_length: "suffix a b \<Longrightarrow> length a = length b \<Longrightarrow> a = b"
  by (auto simp: suffix_def)

lemma domain_matches_iff:
  "domain_matches c r \<longleftrightarrow>
     c \<noteq> [] \<and> (py_lower r = py_lower c \<or> suffix (CHR ''.'' # py_lower c) (py_lower r))"
  by (simp add: domain_matches_def py_endswith_def Let_def)

lemma split_headers_filter:
  "split_headers hs n p =
     (n @ filter (\<lambda>(k, v). py_lower k \<noteq> ''cookie'' \<and> py_lower k \<noteq> ''priority'') hs,
      p @ filter (\<lambda>(k, v). py_lower k = ''priority'') hs)"
  by (induction hs n p rule: split_headers.induct) (auto simp: Let_def)

lemma map_of_dict_set_apply:
  "map_of (dict_set k v d) x = (if x = k then Some v else map_of d x)"
  by (induction d) auto

lemma map_of_dict_set: "map_of (dict_set k v d) = (map_of d)(k \<mapsto> v)"
  by (rule ext) (simp add: map_of_dict_set_apply)

lemma keys_dict_set: "fst ` set (dict_set k v d) = insert k (fst ` set d)"
  by (induction d) force+

lemma wf_dict_set: "wf_dict d \<Longrightarrow> wf_dict (dict_set k v d)"
  unfolding wf_dict_def
proof (induction d)
  case Nil
  then show ?case by simp
next
  case (Cons a d)
  obtain k' v' where a: "a = (k', v')" by (cases a)
  show ?case
  proof (cases "k' = k")
    case True
    with Cons a show ?thesis by simp
  next
    case False
    have "set (map fst (dict_set k v d)) = insert k (fst ` set d)"
      using keys_dict_set[of k v d] by simp
    with Cons a False show ?thesis by auto
  qed
qed

lemma dict_update_Nil: "dict_update d [] = d"
  by (simp add: dict_update_def)

lemma dict_update_Cons: "dict_update d ((k, v) # other) = dict_update (dict_set k v d) other"
  by (simp add: dict_update_def)

lemma wf_dict_update: "wf_dict d \<Longrightarrow> wf_dict (dict_update d other)"
  by (induction other arbitrary: d) (auto simp: dict_update_Nil dict_update_Cons wf_dict_set)

lemma map_of_dict_update_rev: "map_of (dict_update d other) = map_of d ++ map_of (rev other)"
proof (induction other arbitrary: d)
  case Nil
  then show ?case by (simp add: dict_update_Nil)
next
  case (Cons a other)
  obtain k v where a: "a = (k, v)" by (cases a)
  have "map_of (dict_update d (a # other)) = (map_of d)(k \<mapsto> v) ++ map_of (rev other)"
    by (simp only: a dict_update_Cons Cons.IH map_of_dict_set)
  also have "\<dots> = map_of d ++ (map_of [(k, v)] ++ map_of (rev other))"
    by (simp add: fun_eq_iff map_add_def split: option.splits)
  finally show ?case by (simp add: a)
qed

lemma map_of_rev_distinct: "distinct (map fst xs) \<Longrightarrow> map_of (rev xs) = map_of xs"
proof (induction xs)
  case Nil
  then show ?case by simp
next
  case (Cons a xs)
  obtain k v where a: "a = (k, v)" by (cases a)
  from Cons.prems a have k: "map_of xs k = None"
    by (simp add: map_of_eq_None_iff)
  have "map_of (rev (a # xs)) = map_of [(k, v)] ++ map_of xs"
    using Cons by (simp add: a)
  also have "\<dots> = map_of (a # xs)"
    using k by (auto simp: a fun_eq_iff map_add_def split: option.splits)
  finally show ?case .
qed

lemma map_of_dict_update:
  "wf_dict other \<Longrightarrow> map_of (dict_update d other) = map_of d ++ map_of other"
  by (simp add: map_of_dict_update_rev wf_dict_def map_of_rev_distinct)

lemma wf_dict_unique: "wf_dict d \<Longrightarrow> map_of d k = Some v \<Longrightarrow> (k, v') \<in> set d \<Longrightarrow> v' = v"
  by (simp add: wf_dict_def)

lemma merge_session_cookies_wf:
  "wf_dict m \<Longrightarrow> wf_dict (merge_session_cookies store domain m)"
  by (induction store domain m rule: merge_session_cookies.induct) (auto simp: wf_dict_update)

lemma map_of_merge_session_cookies:
  "list_all (\<lambda>(d, cm). wf_dict cm) store \<Longrightarrow>
   map_of (merge_session_cookies store domain m) =
     foldl (++) (map_of m) (map (\<lambda>(d, cm). map_of cm) (applicable store domain))"
  by (induction store domain m rule: merge_session_cookies.induct)
     (auto simp: applicable_def map_of_dict_update)

lemma py_join_contains:
  "x \<in> set xs \<Longrightarrow> \<exists>pre post. py_join sep xs = pre @ x @ post"
proof (induction sep xs rule: py_join.induct)
  case (1 sep)
  then show ?case by simp
next
  case (2 sep y)
  then have "py_join sep [y] = [] @ x @ []" by simp
  then show ?case by blast
next
  case (3 sep y z zs)
  show ?case
  proof (cases "x = y")
    case True
    have "py_join sep (y # z # zs) = [] @ x @ (sep @ py_join sep (z # zs))"
      using True by simp
    then show ?thesis by blast
  next
    case False
    with 3 obtain pre post where "py_join sep (z # zs) = pre @ x @ post" by auto
    then have "py_join sep (y # z # zs) = (y @ sep @ pre) @ x @ post" by simp
    then show ?thesis by blast
  qed
qed

lemma merged_cookies_wf: "wf_dict (merged_cookies store cookies domain)"
proof -
  have "wf_dict ([] :: cookie_map)" by (simp add: wf_dict_def)
  then have "wf_dict (merge_session_cookies store domain [])"
    by (rule merge_session_cookies_wf)
  then show ?thesis
    by (simp add: merged_cookies_def Let_def wf_dict_update)
qed

lemma map_of_merged_cookies:
  assumes "list_all (\<lambda>(d, cm). wf_dict cm) store"
    and "case cookies of None \<Rightarrow> True | Some c \<Rightarrow> wf_dict c"
  shows "map_of (merged_cookies store cookies domain) =
     foldl (++) Map.empty (map (\<lambda>(d, cm). map_of cm) (applicable store domain))
       ++ (case cookies of None \<Rightarrow> Map.empty | Some c \<Rightarrow> map_of c)"
proof (cases cookies)
  case None
  then show ?thesis
    using assms(1) by (simp add: merged_cookies_def map_of_merge_session_cookies)
next
  case (Some c)
  show ?thesis
  proof (cases "c = []")
    case True
    with Some show ?thesis
      using assms(1) by (simp add: merged_cookies_def map_of_merge_session_cookies)
  next
    case False
    with Some assms show ?thesis
      by (simp add: merged_cookies_def map_of_merge_session_cookies map_of_dict_update)
  qed
qed

lemma prepare_headers_eq:
  "prepare_headers store headers cookies domain =
     filter (\<lambda>(k, v). py_lower k \<noteq> ''cookie'' \<and> py_lower k \<noteq> ''priority'')
        (headers_list_of headers)
     @ (if merged_cookies store cookies domain \<noteq> []
        then [(''cookie'', cookie_str (merged_cookies store cookies domain))] else [])
     @ filter (\<lambda>(k, v). py_lower k = ''priority'') (headers_list_of headers)"
  by (simp add: prepare_headers_def split_headers_filter Let_def)

section \<open>Facts about the parser\<close>

lemma of_char_nat_lt: "(of_char c :: nat) < 256"
  by (rule nat_of_char_less_256)

lemma py_lower_char_fix:
  assumes "py_lower_char c = d"
    and "\<not> (97 \<le> (of_char d :: nat) \<and> of_char d \<le> (122::nat))"
    and "\<not> (224 \<le> (of_char d :: nat) \<and> of_char d \<le> (254::nat))"
  shows "c = d"
proof (rule ccontr)
  assume ne: "c \<noteq> d"
  let ?n = "of_char c :: nat"
  from ne assms(1) have r: "(65 \<le> ?n \<and> ?n \<le> 90) \<or> (192 \<le> ?n \<and> ?n \<le> 222 \<and> ?n \<noteq> 215)"
    by (auto simp: py_lower_char_def Let_def split: if_splits)
  with assms(1) have "d = char_of (?n + 32)"
    by (simp add: py_lower_char_def Let_def)
  then have "(of_char d :: nat) = (?n + 32) mod 256" by simp
  with r have "(of_char d :: nat) = ?n + 32" by auto
  with r assms(2,3) show False by auto
qed

lemma py_lower_char_eq_sign: "py_lower_char c = CHR ''='' \<longleftrightarrow> c = CHR ''=''"
proof
  assume "py_lower_char c = CHR ''=''"
  then show "c = CHR ''=''" by (rule py_lower_char_fix) simp_all
next
  assume "c = CHR ''=''"
  then show "py_lower_char c = CHR ''=''" by (simp add: py_lower_char_def)
qed

lemma py_lower_char_dot: "py_lower_char c = CHR ''.'' \<longleftrightarrow> c = CHR ''.''"
proof
  assume "py_lower_char c = CHR ''.''"
  then show "c = CHR ''.''" by (rule py_lower_char_fix) simp_all
next
  assume "c = CHR ''.''"
  then show "py_lower_char c = CHR ''.''" by (simp add: py_lower_char_def)
qed

lemma py_lower_char_idem: "py_lower_char (py_lower_char c) = py_lower_char c"
proof -
  let ?n = "of_char c :: nat"
  show ?thesis
  proof (cases "(65 \<le> ?n \<and> ?n \<le> 90) \<or> (192 \<le> ?n \<and> ?n \<le> 222 \<and> ?n \<noteq> 215)")
    case True
    then have l: "py_lower_char c = char_of (?n + 32)"
      by (simp add: py_lower_char_def Let_def)
    from True have "(of_char (char_of (?n + 32) :: char) :: nat) = ?n + 32"
      by auto
    with True l show ?thesis
      by (auto simp: py_lower_char_def[of "char_of (?n + 32)"] Let_def)
  next
    case False
    have "py_lower_char c = c"
      unfolding py_lower_char_def Let_def using False by (rule if_not_P)
    then show ?thesis by simp
  qed
qed

lemma py_lower_idem: "py_lower (py_lower s) = py_lower s"
  by (simp add: py_lower_def py_lower_char_idem)

lemma not_space_eq: "\<not> py_isspace CHR ''=''"
  by (simp add: py_isspace_def)

lemma dropWhile_keep: "\<not> P y \<Longrightarrow> dropWhile P (xs @ y # ys) = dropWhile P xs @ y # ys"
  by (induction xs) auto

lemma py_rstrip_keep: "\<not> py_isspace y \<Longrightarrow> py_rstrip (xs @ y # ys) = xs @ y # py_rstrip ys"
  by (simp add: py_rstrip_def dropWhile_keep)

lemma py_lstrip_keep: "\<not> py_isspace y \<Longrightarrow> py_lstrip (xs @ y # ys) = py_lstrip xs @ y # ys"
  by (simp add: py_lstrip_def dropWhile_keep)

lemma py_lstrip_idem: "py_lstrip (py_lstrip s) = py_lstrip s"
  by (simp add: py_lstrip_def dropWhile_idem)

lemma py_rstrip_idem: "py_rstrip (py_rstrip s) = py_rstrip s"
  by (simp add: py_rstrip_def dropWhile_idem)

lemma py_lstrip_all: "\<forall>x\<in>set s. py_isspace x \<Longrightarrow> py_lstrip s = []"
  by (simp add: py_lstrip_def)

lemma py_rstrip_all: "\<forall>x\<in>set s. py_isspace x \<Longrightarrow> py_rstrip s = []"
  by (simp add: py_rstrip_def)

lemma py_strip_commute: "py_lstrip (py_rstrip s) = py_rstrip (py_lstrip s)"
proof (cases "\<forall>x\<in>set s. py_isspace x")
  case True
  then show ?thesis by (simp add: py_lstrip_all py_rstrip_all)
next
  case False
  then have "\<exists>x\<in>set s. \<not> py_isspace x" by simp
  from split_list_first_prop[OF this]
  obtain xs y ys where s: "s = xs @ y # ys" and y: "\<not> py_isspace y"
    and xs': "\<forall>x\<in>set xs. \<not> \<not> py_isspace x"
    by blast
  from xs' have xs: "\<forall>x\<in>set xs. py_isspace x" by simp
  from xs have l: "py_lstrip xs = []" by (rule py_lstrip_all)
  have "py_lstrip (py_rstrip s) = y # py_rstrip ys"
    using y l by (simp add: s py_rstrip_keep py_lstrip_keep)
  moreover have "py_lstrip s = y # ys"
    using y l by (simp add: s py_lstrip_keep)
  moreover have "py_rstrip (y # ys) = y # py_rstrip ys"
    using y py_rstrip_keep[of y "[]" ys] by simp
  ultimately show ?thesis by simp
qed

lemma py_strip_lstrip: "py_strip (py_lstrip s) = py_strip s"
  by (simp add: py_strip_def py_lstrip_idem)

lemma py_strip_rstrip: "py_strip (py_rstrip s) = py_strip s"
  by (simp add: py_strip_def py_strip_commute py_rstrip_idem)

lemma py_strip_around:
  "\<not> py_isspace y \<Longrightarrow> py_strip (xs @ y # ys) = py_lstrip xs @ y # py_rstrip ys"
  by (simp add: py_strip_def py_lstrip_keep py_rstrip_keep)

lemma set_py_lstrip: "set (py_lstrip s) \<subseteq> set s"
  by (auto simp: py_lstrip_def dest: set_dropWhileD)

lemma set_py_rstrip: "set (py_rstrip s) \<subseteq> set s"
  by (auto simp: py_rstrip_def dest: set_dropWhileD)

lemma set_py_strip: "set (py_strip s) \<subseteq> set s"
proof -
  have "set (py_strip s) \<subseteq> set (py_lstrip s)"
    unfolding py_strip_def by (rule set_py_rstrip)
  also have "\<dots> \<subseteq> set s" by (rule set_py_lstrip)
  finally show ?thesis .
qed

lemma in_py_strip: "y \<in> set s \<Longrightarrow> \<not> py_isspace y \<Longrightarrow> y \<in> set (py_strip s)"
proof -
  assume "y \<in> set s" and y: "\<not> py_isspace y"
  then obtain xs ys where "s = xs @ y # ys" by (meson split_list)
  with y show ?thesis by (simp add: py_strip_around)
qed

lemma eq_in_py_strip: "CHR ''='' \<in> set (py_strip s) \<longleftrightarrow> CHR ''='' \<in> set s"
  using set_py_strip[of s] in_py_strip[of "CHR ''=''" s] not_space_eq by blast

lemma py_split_not_Nil: "py_split sep s \<noteq> []"
proof (induction s)
  case Nil
  then show ?case by simp
next
  case (Cons c s)
  then obtain w ws where "py_split sep s = w # ws" by (cases "py_split sep s") auto
  then show ?case by simp
qed

lemma py_split_eq:
  "py_split sep s =
     takeWhile (\<lambda>c. c \<noteq> sep) s #
       (if sep \<in> set s then py_split sep (tl (dropWhile (\<lambda>c. c \<noteq> sep) s)) else [])"
proof (induction s)
  case Nil
  then show ?case by simp
next
  case (Cons c s)
  show ?case
  proof (cases "c = sep")
    case True
    then show ?thesis by simp
  next
    case False
    show ?thesis
    proof (cases "sep \<in> set s")
      case True
      with False Cons show ?thesis by simp
    next
      case sep: False
      with False Cons show ?thesis by simp
    qed
  qed
qed

lemma py_split1_eq:
  "py_split1 sep s =
     (if sep \<in> set s
      then [takeWhile (\<lambda>c. c \<noteq> sep) s, tl (dropWhile (\<lambda>c. c \<noteq> sep) s)] else [s])"
proof (induction s)
  case Nil
  then show ?case by simp
next
  case (Cons c s)
  show ?case
  proof (cases "c = sep")
    case True
    then show ?thesis by simp
  next
    case False
    show ?thesis
    proof (cases "sep \<in> set s")
      case True
      with False Cons show ?thesis by simp
    next
      case sep: False
      with False Cons show ?thesis by simp
    qed
  qed
qed

lemma dict_set_twice: "dict_set k v2 (dict_set k v1 d) = dict_set k v2 d"
  by (induction d) auto

lemma py_split1_at:
  "sep \<notin> set a \<Longrightarrow> py_split1 sep (a @ sep # b) = [a, b]"
  by (induction a) auto

lemma py_lower_eq_sign_set: "CHR ''='' \<in> set (py_lower s) \<longleftrightarrow> CHR ''='' \<in> set s"
proof -
  have "CHR ''='' \<in> py_lower_char ` set s \<longleftrightarrow> CHR ''='' \<in> set s"
  proof
    assume "CHR ''='' \<in> py_lower_char ` set s"
    then obtain c where "c \<in> set s" "py_lower_char c = CHR ''=''" by force
    then show "CHR ''='' \<in> set s" by (simp add: py_lower_char_eq_sign)
  next
    assume "CHR ''='' \<in> set s"
    moreover have "py_lower_char CHR ''='' = CHR ''=''" by (simp add: py_lower_char_eq_sign)
    ultimately show "CHR ''='' \<in> py_lower_char ` set s" by force
  qed
  then show ?thesis by (simp add: py_lower_def)
qed

lemma py_lower_split:
  assumes "py_lower q = p @ c # t"
  shows "\<exists>a x b. q = a @ x # b \<and> py_lower a = p \<and> py_lower_char x = c \<and> py_lower b = t
           \<and> length a = length p"
proof -
  from assms have "map py_lower_char q = p @ c # t" by (simp add: py_lower_def)
  then obtain a xb where q: "q = a @ xb" and a: "map py_lower_char a = p"
    and xb: "map py_lower_char xb = c # t"
    by (auto simp: map_eq_append_conv)
  from xb obtain x b where "xb = x # b" "py_lower_char x = c" "map py_lower_char b = t"
    by (auto simp: map_eq_Cons_conv)
  with q a have "q = a @ x # b \<and> py_lower a = p \<and> py_lower_char x = c \<and> py_lower b = t
           \<and> length a = length p"
    by (auto simp: py_lower_def)
  then show ?thesis by blast
qed

lemma domain_prefix_split:
  assumes "py_startswith (py_lower q) ''domain=''"
  shows "py_split1 CHR ''='' q = [take 6 q, drop 7 q]"
proof -
  from assms obtain t where "py_lower q = ''domain'' @ CHR ''='' # t"
    by (auto simp: py_startswith_def prefix_def)
  from py_lower_split[OF this]
  obtain a x b where q: "q = a @ x # b" and a: "py_lower a = ''domain''"
    and x: "py_lower_char x = CHR ''=''" and len: "length a = length ''domain''"
    by blast
  from x have x': "x = CHR ''=''" by (simp add: py_lower_char_eq_sign)
  have "CHR ''='' \<notin> set (py_lower a)" by (simp add: a)
  then have na: "CHR ''='' \<notin> set a" by (simp add: py_lower_eq_sign_set)
  from len have "take 6 q = a" "drop 7 q = b" by (simp_all add: q)
  with na show ?thesis by (simp add: q x' py_split1_at)
qed

lemma find_domain_eq:
  "find_domain parts =
     Inr (case find (\<lambda>part. py_startswith (py_lower (py_strip part)) ''domain='') parts of
            None \<Rightarrow> []
          | Some part \<Rightarrow>
              (let d = py_lower (py_strip (drop 7 (py_strip part)))
               in if py_startswith d ''.'' then drop 1 d else d))"
proof (induction parts)
  case Nil
  then show ?case by simp
next
  case (Cons part rest)
  show ?case
  proof (cases "py_startswith (py_lower (py_strip part)) ''domain=''")
    case True
    then have "py_split1 CHR ''='' (py_strip part) = [take 6 (py_strip part), drop 7 (py_strip part)]"
      by (rule domain_prefix_split)
    with True show ?thesis by (simp add: Let_def)
  next
    case False
    with Cons show ?thesis by (simp add: Let_def)
  qed
qed

lemma find_domain_attribute:
  "find_domain (tl (py_split CHR '';'' value)) =
     Inr (case domain_attribute value of
            None \<Rightarrow> []
          | Some a \<Rightarrow> (if py_startswith (py_lower a) ''.'' then drop 1 (py_lower a) else py_lower a))"
  by (simp add: find_domain_eq domain_attribute_def Let_def split: option.splits)

lemma takeWhile_at: "sep \<notin> set a \<Longrightarrow> takeWhile (\<lambda>c. c \<noteq> sep) (a @ sep # b) = a"
  by (induction a) auto

lemma dropWhile_at: "sep \<notin> set a \<Longrightarrow> dropWhile (\<lambda>c. c \<noteq> sep) (a @ sep # b) = sep # b"
  by (induction a) auto

lemma parse_cookie_value_eq:
  "parse_cookie_value value =
     Inr (let seg = takeWhile (\<lambda>c. c \<noteq> CHR '';'') value
          in if CHR ''='' \<in> set seg
             then [(py_strip (takeWhile (\<lambda>c. c \<noteq> CHR ''='') seg),
                    py_strip (tl (dropWhile (\<lambda>c. c \<noteq> CHR ''='') seg)),
                    (case domain_attribute value of
                       None \<Rightarrow> []
                     | Some a \<Rightarrow> (if py_startswith (py_lower a) ''.''
                                  then drop 1 (py_lower a) else py_lower a)))]
             else [])"
proof -
  let ?seg = "takeWhile (\<lambda>c. c \<noteq> CHR '';'') value"
  obtain rest where sp: "py_split CHR '';'' value = ?seg # rest"
    using py_split_eq[of "CHR '';''" "value"] by simp
  then have rest: "rest = tl (py_split CHR '';'' value)" by simp
  show ?thesis
  proof (cases "CHR ''='' \<in> set ?seg")
    case False
    then have "CHR ''='' \<notin> set (py_strip ?seg)" by (simp add: eq_in_py_strip)
    with False sp show ?thesis by (simp add: parse_cookie_value_def Let_def)
  next
    case True
    then have v: "CHR ''='' \<in> set value" by (auto dest: set_takeWhileD)
    from split_list_first[OF True]
    obtain a b where seg: "?seg = a @ CHR ''='' # b" and a: "CHR ''='' \<notin> set a"
      by (elim exE conjE)
    have strip: "py_strip ?seg = py_lstrip a @ CHR ''='' # py_rstrip b"
      by (simp only: seg py_strip_around[OF not_space_eq])
    have la: "CHR ''='' \<notin> set (py_lstrip a)" using a set_py_lstrip[of a] by blast
    have s1: "py_split1 CHR ''='' (py_strip ?seg) = [py_lstrip a, py_rstrip b]"
      by (simp only: strip py_split1_at[OF la])
    have c: "CHR ''='' \<in> set (py_strip ?seg)" using True by (simp add: eq_in_py_strip)
    have tw: "takeWhile (\<lambda>c. c \<noteq> CHR ''='') ?seg = a"
      by (simp only: seg takeWhile_at[OF a])
    have dw: "tl (dropWhile (\<lambda>c. c \<noteq> CHR ''='') ?seg) = b"
      by (simp only: seg dropWhile_at[OF a] list.sel)
    have fd: "find_domain rest =
     Inr (case domain_attribute value of
            None \<Rightarrow> []
          | Some a \<Rightarrow> (if py_startswith (py_lower a) ''.'' then drop 1 (py_lower a) else py_lower a))"
      unfolding rest by (rule find_domain_attribute)
    have "parse_cookie_value value =
       Inr [(py_strip (py_lstrip a), py_strip (py_rstrip b),
             (case domain_attribute value of
                None \<Rightarrow> []
              | Some a \<Rightarrow> (if py_startswith (py_lower a) ''.''
                           then drop 1 (py_lower a) else py_lower a)))]"
      using v c by (simp add: parse_cookie_value_def sp s1 fd Let_def)
    with True show ?thesis
      by (simp add: Let_def tw dw py_strip_lstrip py_strip_rstrip)
  qed
qed

lemma parse_set_cookie_total: "\<exists>cs. parse_set_cookie values = Inr cs"
  by (induction "values") (auto simp: parse_cookie_value_eq)

lemma store_cookie_eq:
  "store_cookie store d n v =
     Inr (dict_set d
            (dict_set n v (case map_of store d of None \<Rightarrow> [] | Some cm \<Rightarrow> cm)) store)"
  by (cases "map_of store d")
     (simp_all add: store_cookie_def dict_contains_def map_of_dict_set_apply dict_set_twice)

lemma store_parsed_cookies_total: "\<exists>store'. store_parsed_cookies store cs rd = Inr store'"
  by (induction store cs rd rule: store_parsed_cookies.induct)
     (auto simp: store_cookie_eq Let_def)

lemma update_cookies_total: "\<exists>store'. update_cookies_from_response store hs rd = Inr store'"
proof (induction store hs rd rule: update_cookies_from_response.induct)
  case (1 store rd)
  then show ?case by simp
next
  case (2 store name "values" rest rd)
  show ?case
  proof (cases "py_lower name = ''set-cookie''")
    case False
    with 2 show ?thesis by simp
  next
    case True
    obtain cs where cs: "parse_set_cookie values = Inr cs"
      using parse_set_cookie_total by blast
    obtain store' where s: "store_parsed_cookies store cs rd = Inr store'"
      using store_parsed_cookies_total by blast
    from 2(1)[OF True cs s] True cs s show ?thesis by simp
  qed
qed

section \<open>Facts about ingestion\<close>

lemma update_single:
  assumes "py_lower hname = ''set-cookie''" and "parse_cookie_value value = Inr [(n, v, d)]"
  shows "update_cookies_from_response store [(hname, [value])] rd =
     Inr (dict_set (if d \<noteq> [] then d else rd)
            (dict_set n v (case map_of store (if d \<noteq> [] then d else rd) of
                             None \<Rightarrow> [] | Some cm \<Rightarrow> cm)) store)"
  using assms by (simp add: store_cookie_eq Let_def)

lemma update_single_skip:
  assumes "parse_cookie_value value = Inr []"
  shows "update_cookies_from_response store [(hname, [value])] rd = Inr store"
  using assms by simp

lemma stored_lookup:
  "\<exists>cm. map_of (dict_set d (dict_set n v old) store) d = Some cm \<and> map_of cm n = Some v"
  by (simp add: map_of_dict_set_apply)

lemma parse_set_cookie_skip:
  "\<forall>value\<in>set values. CHR ''='' \<notin> set (takeWhile (\<lambda>c. c \<noteq> CHR '';'') value) \<Longrightarrow>
   parse_set_cookie values = Inr []"
  by (induction "values") (simp_all add: parse_cookie_value_eq)

lemma update_cookies_skip:
  "\<forall>(name, values)\<in>set hs. py_lower name = ''set-cookie'' \<longrightarrow>
      (\<forall>value\<in>set values. CHR ''='' \<notin> set (takeWhile (\<lambda>c. c \<noteq> CHR '';'') value)) \<Longrightarrow>
   update_cookies_from_response store hs rd = Inr store"
proof (induction store hs rd rule: update_cookies_from_response.induct)
  case (1 store rd)
  then show ?case by simp
next
  case (2 store name "values" rest rd)
  show ?case
  proof (cases "py_lower name = ''set-cookie''")
    case False
    with 2 show ?thesis by simp
  next
    case True
    with 2(3) have "\<forall>value\<in>set values. CHR ''='' \<notin> set (takeWhile (\<lambda>c. c \<noteq> CHR '';'') value)"
      by simp
    then have cs: "parse_set_cookie values = Inr []" by (rule parse_set_cookie_skip)
    have s: "store_parsed_cookies store [] rd = Inr store" by simp
    from 2(3) have "\<forall>(name, values)\<in>set rest. py_lower name = ''set-cookie'' \<longrightarrow>
      (\<forall>value\<in>set values. CHR ''='' \<notin> set (takeWhile (\<lambda>c. c \<noteq> CHR '';'') value))"
      by simp
    from 2(1)[OF True cs s this] True cs show ?thesis by simp
  qed
qed

section \<open>Facts about the store\<close>

lemma keep_request_cookies_eq:
  "keep_request_cookies store cookies d =
     Inr (if cookies_given cookies
          then dict_set d
                 (dict_update (case map_of store d of None \<Rightarrow> [] | Some cm \<Rightarrow> cm) (the cookies))
                 store
          else store)"
  by (cases "map_of store d")
     (simp_all add: keep_request_cookies_def dict_contains_def map_of_dict_set_apply
        dict_set_twice Let_def)

lemma list_all_keys: "list_all (\<lambda>(d, cm). P d) store \<longleftrightarrow> (\<forall>k\<in>fst ` set store. P k)"
  by (auto simp: list_all_iff)

lemma keys_dict_set_all:
  "list_all (\<lambda>(d, cm). P d) store \<Longrightarrow> P k \<Longrightarrow> list_all (\<lambda>(d, cm). P d) (dict_set k v store)"
  by (simp add: list_all_keys keys_dict_set)

lemma set_dict_set: "set (dict_set k v d) \<subseteq> insert (k, v) (set d)"
  by (induction d) (auto split: if_splits)

lemma values_dict_set_all:
  "list_all (\<lambda>(d, cm). Q cm) store \<Longrightarrow> Q v \<Longrightarrow> list_all (\<lambda>(d, cm). Q cm) (dict_set k v store)"
  using set_dict_set[of k v store] by (auto simp: list_all_iff)

lemma wf_dict_Nil: "wf_dict []"
  by (simp add: wf_dict_def)

lemma wf_store_entry:
  "wf_store store \<Longrightarrow> wf_dict (case map_of store d of None \<Rightarrow> [] | Some cm \<Rightarrow> cm)"
proof (cases "map_of store d")
  case None
  then show ?thesis by (simp add: wf_dict_Nil)
next
  case (Some cm)
  assume "wf_store store"
  moreover from Some have "(d, cm) \<in> set store" by (rule map_of_SomeD)
  ultimately have "wf_dict cm" by (auto simp: wf_store_def list_all_iff)
  with Some show ?thesis by simp
qed

lemma wf_store_dict_set: "wf_store store \<Longrightarrow> wf_dict cm \<Longrightarrow> wf_store (dict_set d cm store)"
  using wf_dict_set[of store d cm] values_dict_set_all[of wf_dict store cm d]
  by (simp add: wf_store_def)

lemma wf_store_keep:
  "wf_store store \<Longrightarrow> keep_request_cookies store cookies d = Inr store' \<Longrightarrow> wf_store store'"
  by (auto simp: keep_request_cookies_eq wf_store_dict_set wf_dict_update wf_store_entry
      split: if_splits)

lemma wf_store_parsed:
  "wf_store store \<Longrightarrow> store_parsed_cookies store cs rd = Inr store' \<Longrightarrow> wf_store store'"
proof (induction store cs rd arbitrary: store' rule: store_parsed_cookies.induct)
  case (1 store rd)
  then show ?case by simp
next
  case (2 store n v d rest rd)
  let ?sd = "if d \<noteq> [] then d else rd"
  let ?s1 = "dict_set ?sd (dict_set n v (case map_of store ?sd of None \<Rightarrow> [] | Some cm \<Rightarrow> cm)) store"
  have s1: "store_cookie store ?sd n v = Inr ?s1" by (rule store_cookie_eq)
  have "wf_store ?s1"
    using "2.prems"(1) by (intro wf_store_dict_set wf_dict_set wf_store_entry)
  moreover from "2.prems"(2) s1 have "store_parsed_cookies ?s1 rest rd = Inr store'"
    by (simp add: Let_def)
  ultimately show ?case using "2.IH"[OF refl s1] by blast
qed

lemma store_parsed_append:
  "store_parsed_cookies store (xs @ ys) rd =
     (case store_parsed_cookies store xs rd of
        Inl e \<Rightarrow> Inl e
      | Inr store' \<Rightarrow> store_parsed_cookies store' ys rd)"
proof (induction store xs rd rule: store_parsed_cookies.induct)
  case (1 store rd)
  then show ?case by simp
next
  case (2 store n v d rest rd)
  then show ?case by (simp add: store_cookie_eq Let_def)
qed

lemma update_cookies_response_cookies:
  "update_cookies_from_response store hs rd = store_parsed_cookies store (response_cookies hs) rd"
proof (induction store hs rd rule: update_cookies_from_response.induct)
  case (1 store rd)
  then show ?case by simp
next
  case (2 store name "values" rest rd)
  show ?case
  proof (cases "py_lower name = ''set-cookie''")
    case False
    with 2 show ?thesis by simp
  next
    case True
    obtain cs where cs: "parse_set_cookie values = Inr cs"
      using parse_set_cookie_total by blast
    obtain store' where s: "store_parsed_cookies store cs rd = Inr store'"
      using store_parsed_cookies_total by blast
    from 2(1)[OF True cs s] True cs s show ?thesis
      by (simp add: store_parsed_append)
  qed
qed

lemma wf_store_update:
  "wf_store store \<Longrightarrow> update_cookies_from_response store hs rd = Inr store' \<Longrightarrow> wf_store store'"
  by (simp add: update_cookies_response_cookies wf_store_parsed)

lemma store_parsed_keys:
  assumes "list_all (\<lambda>(d, cm). P d) store"
    and "\<forall>(n, v, d)\<in>set cs. P (if d \<noteq> [] then d else rd)"
    and "store_parsed_cookies store cs rd = Inr store'"
  shows "list_all (\<lambda>(d, cm). P d) store'"
  using assms
proof (induction store cs rd arbitrary: store' rule: store_parsed_cookies.induct)
  case (1 store rd)
  then show ?case by simp
next
  case (2 store n v d rest rd)
  let ?sd = "if d \<noteq> [] then d else rd"
  let ?s1 = "dict_set ?sd (dict_set n v (case map_of store ?sd of None \<Rightarrow> [] | Some cm \<Rightarrow> cm)) store"
  have s1: "store_cookie store ?sd n v = Inr ?s1" by (rule store_cookie_eq)
  from "2.prems"(2) have p: "P ?sd" by simp
  have k: "list_all (\<lambda>(d, cm). P d) ?s1"
    using "2.prems"(1) p by (rule keys_dict_set_all)
  from "2.prems"(2) have r: "\<forall>(n, v, d)\<in>set rest. P (if d \<noteq> [] then d else rd)" by simp
  from "2.prems"(3) s1 have "store_parsed_cookies ?s1 rest rd = Inr store'"
    by (simp add: Let_def)
  with "2.IH"[OF refl s1 k r] show ?case by blast
qed

lemma parse_set_cookie_elem:
  "parse_set_cookie vals = Inr cs \<Longrightarrow> x \<in> set cs \<Longrightarrow>
   \<exists>value\<in>set vals. \<exists>cs'. parse_cookie_value value = Inr cs' \<and> x \<in> set cs'"
proof (induction vals arbitrary: cs)
  case Nil
  then show ?case by simp
next
  case (Cons raw rest)
  obtain new where new: "parse_cookie_value raw = Inr new"
    by (simp add: parse_cookie_value_eq)
  obtain cs2 where cs2: "parse_set_cookie rest = Inr cs2"
    using parse_set_cookie_total by blast
  from Cons.prems(1) new cs2 have "cs = new @ cs2" by simp
  with Cons.prems(2) have "x \<in> set new \<or> x \<in> set cs2" by simp
  then show ?case
  proof
    assume "x \<in> set new"
    with new show ?thesis by auto
  next
    assume "x \<in> set cs2"
    from Cons.IH[OF cs2 this] show ?thesis by auto
  qed
qed

lemma response_cookies_elem:
  "x \<in> set (response_cookies hs) \<Longrightarrow>
   \<exists>(name, values)\<in>set hs. py_lower name = ''set-cookie'' \<and>
      (\<exists>value\<in>set values. \<exists>cs. parse_cookie_value value = Inr cs \<and> x \<in> set cs)"
proof (induction hs)
  case Nil
  then show ?case by simp
next
  case (Cons h rest)
  obtain name "values" where h: "h = (name, values)" by (cases h)
  show ?case
  proof (cases "py_lower name = ''set-cookie''")
    case False
    with Cons h show ?thesis by auto
  next
    case True
    obtain cs where cs: "parse_set_cookie values = Inr cs"
      using parse_set_cookie_total by blast
    from Cons.prems h True cs have "x \<in> set cs \<or> x \<in> set (response_cookies rest)" by simp
    then show ?thesis
    proof
      assume "x \<in> set cs"
      from parse_set_cookie_elem[OF cs this] True h show ?thesis by auto
    next
      assume "x \<in> set (response_cookies rest)"
      from Cons.IH[OF this] show ?thesis by auto
    qed
  qed
qed

lemma parsed_domain:
  "parse_cookie_value value = Inr cs \<Longrightarrow> (n, v, d) \<in> set cs \<Longrightarrow>
   d = (case domain_attribute value of
          None \<Rightarrow> []
        | Some a \<Rightarrow> (if py_startswith (py_lower a) ''.'' then drop 1 (py_lower a) else py_lower a))"
  by (auto simp: parse_cookie_value_eq Let_def split: if_splits)

lemma py_lower_drop: "py_lower (drop n s) = drop n (py_lower s)"
  by (simp add: py_lower_def drop_map)

lemma py_lower_Nil: "py_lower [] = []"
  by (simp add: py_lower_def)

lemma parsed_domain_lower:
  assumes "parse_cookie_value value = Inr cs" and "(n, v, d) \<in> set cs"
  shows "py_lower d = d"
  unfolding parsed_domain[OF assms]
  by (simp add: py_lower_drop py_lower_idem py_lower_Nil split: option.splits)

lemma two_dots:
  assumes "py_startswith (py_lower a) ''.''" and "py_startswith (drop 1 (py_lower a)) ''.''"
  shows "py_startswith a ''..''"
proof -
  from assms(1) obtain t where t: "py_lower a = CHR ''.'' # t"
    by (auto simp: py_startswith_def prefix_def)
  with assms(2) obtain u where "py_lower a = [] @ CHR ''.'' # CHR ''.'' # u"
    by (auto simp: py_startswith_def prefix_def)
  from py_lower_split[OF this] obtain x b where a: "a = x # b"
    and x: "py_lower_char x = CHR ''.''" and b: "py_lower b = [] @ CHR ''.'' # u"
    by auto
  from py_lower_split[OF b] obtain y c where b': "b = y # c" and y: "py_lower_char y = CHR ''.''"
    by auto
  from x y have "x = CHR ''.''" "y = CHR ''.''" by (simp_all add: py_lower_char_dot)
  with a b' show ?thesis by (simp add: py_startswith_def)
qed

lemma py_lower_dot_prefix: "py_startswith (py_lower a) ''.'' \<longleftrightarrow> py_startswith a ''.''"
proof
  assume "py_startswith (py_lower a) ''.''"
  then obtain t where "py_lower a = [] @ CHR ''.'' # t"
    by (auto simp: py_startswith_def prefix_def)
  from py_lower_split[OF this] obtain x b where "a = x # b" "py_lower_char x = CHR ''.''"
    by auto
  then show "py_startswith a ''.''"
    by (simp add: py_startswith_def py_lower_char_dot)
next
  assume "py_startswith a ''.''"
  then obtain t where "a = CHR ''.'' # t" by (auto simp: py_startswith_def prefix_def)
  moreover have "py_lower_char CHR ''.'' = CHR ''.''" by (simp add: py_lower_char_dot)
  ultimately show "py_startswith (py_lower a) ''.''"
    by (simp add: py_startswith_def py_lower_def)
qed

lemma parsed_domain_undotted:
  assumes "parse_cookie_value value = Inr cs" and "(n, v, d) \<in> set cs"
    and "\<forall>a. domain_attribute value = Some a \<longrightarrow> \<not> py_startswith a ''..''"
  shows "\<not> py_startswith d ''.''"
proof (cases "domain_attribute value")
  case None
  with parsed_domain[OF assms(1,2)] show ?thesis by (simp add: py_startswith_def)
next
  case (Some a)
  with assms(3) have nd: "\<not> py_startswith a ''..''" by simp
  show ?thesis
  proof (cases "py_startswith (py_lower a) ''.''")
    case True
    with parsed_domain[OF assms(1,2)] Some have "d = drop 1 (py_lower a)" by simp
    with True nd two_dots[of a] show ?thesis by blast
  next
    case False
    with parsed_domain[OF assms(1,2)] Some show ?thesis by simp
  qed
qed

lemma response_cookies_keys:
  assumes "\<And>value cs n v d. parse_cookie_value value = Inr cs \<Longrightarrow> (n, v, d) \<in> set cs \<Longrightarrow>
             (\<exists>(name, vals)\<in>set hs. py_lower name = ''set-cookie'' \<and> value \<in> set vals) \<Longrightarrow> d \<noteq> [] \<Longrightarrow> P d"
    and "P rd"
  shows "\<forall>(n, v, d)\<in>set (response_cookies hs). P (if d \<noteq> [] then d else rd)"
proof (clarify)
  fix n v d
  assume "(n, v, d) \<in> set (response_cookies hs)"
  from response_cookies_elem[OF this]
  obtain name vals raw cs where "(name, vals) \<in> set hs" "py_lower name = ''set-cookie''"
    "raw \<in> set vals" "parse_cookie_value raw = Inr cs" "(n, v, d) \<in> set cs"
    by auto
  then have "d \<noteq> [] \<Longrightarrow> P d" using assms(1)[of raw cs n v d] by auto
  with assms(2) show "P (if d \<noteq> [] then d else rd)" by simp
qed

lemma keep_keys:
  assumes "list_all (\<lambda>(d, cm). P d) store" and "P domain"
    and "keep_request_cookies store cookies domain = Inr store'"
  shows "list_all (\<lambda>(d, cm). P d) store'"
proof (cases "cookies_given cookies")
  case True
  with assms(3) have "store' = dict_set domain
      (dict_update (case map_of store domain of None \<Rightarrow> [] | Some cm \<Rightarrow> cm) (the cookies)) store"
    by (simp add: keep_request_cookies_eq)
  with assms(1,2) show ?thesis by (simp add: keys_dict_set_all)
next
  case False
  with assms(3) have "store' = store" by (simp add: keep_request_cookies_eq)
  with assms(1) show ?thesis by simp
qed

lemma update_keys:
  assumes "list_all (\<lambda>(d, cm). P d) store"
    and "\<forall>(n, v, d)\<in>set (response_cookies hs). P (if d \<noteq> [] then d else rd)"
    and "update_cookies_from_response store hs rd = Inr store'"
  shows "list_all (\<lambda>(d, cm). P d) store'"
  using assms store_parsed_keys[of P store "response_cookies hs" rd store']
  by (simp add: update_cookies_response_cookies)

section \<open>Facts about a request\<close>

lemma entry_dict_set:
  "(case map_of (dict_set k v store) d of None \<Rightarrow> [] | Some cm \<Rightarrow> cm) =
     (if d = k then v else (case map_of store d of None \<Rightarrow> [] | Some cm \<Rightarrow> cm))"
  by (simp add: map_of_dict_set_apply)

lemma store_parsed_entry:
  assumes "\<forall>(n', v', d')\<in>set cs. (if d' \<noteq> [] then d' else rd) = D \<longrightarrow> n' \<noteq> n"
    and "store_parsed_cookies store cs rd = Inr store'"
  shows "map_of (case map_of store' D of None \<Rightarrow> [] | Some cm \<Rightarrow> cm) n =
         map_of (case map_of store D of None \<Rightarrow> [] | Some cm \<Rightarrow> cm) n"
  using assms
proof (induction store cs rd arbitrary: store' rule: store_parsed_cookies.induct)
  case (1 store rd)
  then show ?case by simp
next
  case (2 store n' v' d' rest rd)
  let ?sd = "if d' \<noteq> [] then d' else rd"
  let ?s1 = "dict_set ?sd (dict_set n' v' (case map_of store ?sd of None \<Rightarrow> [] | Some cm \<Rightarrow> cm)) store"
  have s1: "store_cookie store ?sd n' v' = Inr ?s1" by (rule store_cookie_eq)
  from "2.prems"(1) have here: "?sd = D \<longrightarrow> n' \<noteq> n" by simp
  from "2.prems"(1) have r: "\<forall>(n', v', d')\<in>set rest. (if d' \<noteq> [] then d' else rd) = D \<longrightarrow> n' \<noteq> n"
    by simp
  from "2.prems"(2) s1 have "store_parsed_cookies ?s1 rest rd = Inr store'"
    by (simp add: Let_def)
  with "2.IH"[OF refl s1 r]
  have "map_of (case map_of store' D of None \<Rightarrow> [] | Some cm \<Rightarrow> cm) n =
        map_of (case map_of ?s1 D of None \<Rightarrow> [] | Some cm \<Rightarrow> cm) n"
    by blast
  also have "\<dots> = map_of (case map_of store D of None \<Rightarrow> [] | Some cm \<Rightarrow> cm) n"
  proof (cases "?sd = D")
    case True
    with here have "n' \<noteq> n" by simp
    then show ?thesis unfolding entry_dict_set using True
      by (simp add: map_of_dict_set_apply)
  next
    case False
    then have "D \<noteq> ?sd" by blast
    then show ?thesis unfolding entry_dict_set by (simp only: if_False)
  qed
  finally show ?case .
qed

lemma keep_entry:
  assumes "wf_dict ck" and "ck \<noteq> []" and "keep_request_cookies store (Some ck) D = Inr s1"
    and "map_of ck n = Some v"
  shows "map_of (case map_of s1 D of None \<Rightarrow> [] | Some cm \<Rightarrow> cm) n = Some v"
proof -
  from assms(2,3) have "s1 = dict_set D
      (dict_update (case map_of store D of None \<Rightarrow> [] | Some cm \<Rightarrow> cm) ck) store"
    by (simp add: keep_request_cookies_eq)
  then have "(case map_of s1 D of None \<Rightarrow> [] | Some cm \<Rightarrow> cm) =
      dict_update (case map_of store D of None \<Rightarrow> [] | Some cm \<Rightarrow> cm) ck"
    by (simp only: entry_dict_set refl if_True)
  with assms(1,4) show ?thesis by (simp add: map_of_dict_update)
qed

lemma foldl_map_add_none:
  "\<forall>b\<in>set bs. b n = None \<Longrightarrow> foldl (++) m bs n = m n"
  by (induction bs arbitrary: m) (simp_all add: map_add_def)

lemma foldl_map_add_last:
  assumes "g n = Some v" and "\<forall>b\<in>set bs. b n = None"
  shows "foldl (++) m (as @ g # bs) n = Some v"
proof -
  have "foldl (++) m (as @ g # bs) n = (foldl (++) m as ++ g) n"
    using assms(2) by (simp add: foldl_map_add_none)
  with assms(1) show ?thesis by simp
qed

lemma applicable_append:
  "applicable (pre @ post) D = applicable pre D @ applicable post D"
  by (simp add: applicable_def)

lemma merged_at:
  assumes "list_all (\<lambda>(d, cm). wf_dict cm) store"
    and "store = pre @ (D, cm) # post"
    and "map_of cm n = Some v"
    and "\<forall>(d, cm')\<in>set post. (d = D \<or> domain_matches d D) \<longrightarrow> map_of cm' n = None"
  shows "map_of (merged_cookies store None D) n = Some v"
proof -
  have a: "applicable store D = applicable pre D @ (D, cm) # applicable post D"
    unfolding assms(2) by (simp add: applicable_def)
  have "\<forall>b\<in>set (map (\<lambda>(d, cm). map_of cm) (applicable post D)). b n = None"
    using assms(4) by (auto simp: applicable_def)
  with assms(3) have "foldl (++) Map.empty
      (map (\<lambda>(d, cm). map_of cm) (applicable pre D) @ map_of cm #
        map (\<lambda>(d, cm). map_of cm) (applicable post D)) n = Some v"
    by (rule foldl_map_add_last)
  moreover have "map_of (merged_cookies store None D) =
     foldl (++) Map.empty (map (\<lambda>(d, cm). map_of cm) (applicable store D))"
    using map_of_merged_cookies[OF assms(1), of None D] by simp
  ultimately show ?thesis by (simp add: a)
qed

lemma request_no_cookies:
  "request send c netloc headers None body =
   request (\<lambda>h. send (payload_headers (client_cookies c) (extract_domain netloc) headers None body))
     c netloc headers None body"
  by (simp add: request_def keep_request_cookies_eq Let_def)

lemma request_established:
  assumes "session_established c"
    and "keep_request_cookies (client_cookies c) cookies (extract_domain netloc) = Inr s1"
  shows "request send c netloc headers cookies body =
    (case send (payload_headers s1 (extract_domain netloc) headers cookies body) of
       None \<Rightarrow> (c\<lparr>client_cookies := s1\<rparr>, Inl RequestError)
     | Some (resp, body_hex) \<Rightarrow>
         (case update_cookies_from_response s1 resp (extract_domain netloc) of
            Inl e \<Rightarrow> (c\<lparr>client_cookies := s1\<rparr>, Inl RequestError)
          | Inr s2 \<Rightarrow>
              (case (if body_hex \<noteq> [] then bytes_fromhex body_hex else Inr []) of
                 Inl e \<Rightarrow> (c\<lparr>client_cookies := s2\<rparr>, Inl RequestError)
               | Inr content_bytes \<Rightarrow> (c\<lparr>client_cookies := s2\<rparr>, Inr (resp, content_bytes)))))"
  using assms
  by (simp add: request_def Let_def del: session_established.simps
      split: option.splits sum.splits prod.splits)

lemma request_store:
  assumes "session_established c"
    and "keep_request_cookies (client_cookies c) cookies (extract_domain netloc) = Inr s1"
    and "request send c netloc headers cookies body = (c', result)"
  shows "(send (payload_headers s1 (extract_domain netloc) headers cookies body) = None
            \<and> client_cookies c' = s1)
       \<or> (\<exists>resp body_hex. send (payload_headers s1 (extract_domain netloc) headers cookies body)
              = Some (resp, body_hex)
            \<and> update_cookies_from_response s1 resp (extract_domain netloc)
              = Inr (client_cookies c'))"
proof (cases "send (payload_headers s1 (extract_domain netloc) headers cookies body)")
  case None
  with request_established[OF assms(1,2), of send headers body] assms(3) show ?thesis by auto
next
  case (Some a)
  obtain resp body_hex where a: "a = (resp, body_hex)" by (cases a)
  obtain s2 where s2: "update_cookies_from_response s1 resp (extract_domain netloc) = Inr s2"
    using update_cookies_total by blast
  from request_established[OF assms(1,2), of send headers body] assms(3) Some a s2
  have "client_cookies c' = s2" by (auto split: sum.splits if_splits)
  with Some a s2 show ?thesis by simp
qed

lemma get_cookies_lowered:
  "py_lower D = D \<Longrightarrow>
   get_cookies_for_domain store D = (case map_of store D of None \<Rightarrow> [] | Some cm \<Rightarrow> cm)"
  by (simp add: get_cookies_for_domain_def)

lemma cookie_in_headers:
  assumes "(n, v) \<in> set (merged_cookies store cookies D)"
  shows "(''cookie'', cookie_str (merged_cookies store cookies D))
           \<in> set (prepare_headers store headers cookies D)
       \<and> (\<exists>a b. cookie_str (merged_cookies store cookies D) = a @ (n @ ''='' @ v) @ b)"
proof -
  from assms have ne: "merged_cookies store cookies D \<noteq> []" by auto
  from assms have "n @ ''='' @ v \<in> set (map (\<lambda>(k, v). k @ ''='' @ v) (merged_cookies store cookies D))"
    by force
  then have "\<exists>a b. cookie_str (merged_cookies store cookies D) = a @ (n @ ''='' @ v) @ b"
    unfolding cookie_str_def by (rule py_join_contains)
  with ne show ?thesis by (simp add: prepare_headers_eq)
qed

lemma one_off_after_request:
  assumes est: "session_established c"
    and wf: "wf_store (client_cookies c)"
    and ne: "ck \<noteq> []" and wfck: "wf_dict ck"
    and req: "request send c netloc headers (Some ck) body = (c', result)"
    and look: "map_of ck n = Some v"
    and resp: "\<forall>s1 resp body_hex.
             keep_request_cookies (client_cookies c) (Some ck) (extract_domain netloc) = Inr s1
             \<and> send (payload_headers s1 (extract_domain netloc) headers (Some ck) body)
                 = Some (resp, body_hex)
             \<longrightarrow> (\<forall>(n', v', d')\<in>set (response_cookies resp).
                    (if d' \<noteq> [] then d' else extract_domain netloc) = extract_domain netloc
                      \<longrightarrow> n' \<noteq> n)"
  shows "map_of (get_cookies_for_domain (client_cookies c') (extract_domain netloc)) n = Some v"
proof -
  let ?D = "extract_domain netloc"
  have lo: "py_lower ?D = ?D" by (simp add: extract_domain_def py_lower_idem)
  obtain s1 where s1: "keep_request_cookies (client_cookies c) (Some ck) ?D = Inr s1"
    by (simp add: keep_request_cookies_eq)
  from wfck ne s1 look
  have e1: "map_of (case map_of s1 ?D of None \<Rightarrow> [] | Some cm \<Rightarrow> cm) n = Some v"
    by (rule keep_entry)
  from request_store[OF est s1 req]
  show ?thesis
  proof
    assume "send (payload_headers s1 ?D headers (Some ck) body) = None
        \<and> client_cookies c' = s1"
    with e1 lo show ?thesis by (simp add: get_cookies_lowered)
  next
    assume "\<exists>resp body_hex. send (payload_headers s1 ?D headers (Some ck) body)
              = Some (resp, body_hex)
            \<and> update_cookies_from_response s1 resp ?D = Inr (client_cookies c')"
    then obtain rh bh where sd: "send (payload_headers s1 ?D headers (Some ck) body) = Some (rh, bh)"
      and s2: "update_cookies_from_response s1 rh ?D = Inr (client_cookies c')"
      by blast
    from resp s1 sd have "\<forall>(n', v', d')\<in>set (response_cookies rh).
                 (if d' \<noteq> [] then d' else ?D) = ?D \<longrightarrow> n' \<noteq> n"
      by blast
    moreover from s2 have "store_parsed_cookies s1 (response_cookies rh) ?D = Inr (client_cookies c')"
      by (simp add: update_cookies_response_cookies)
    ultimately have "map_of (case map_of (client_cookies c') ?D of None \<Rightarrow> [] | Some cm \<Rightarrow> cm) n =
         map_of (case map_of s1 ?D of None \<Rightarrow> [] | Some cm \<Rightarrow> cm) n"
      by (rule store_parsed_entry)
    with e1 lo show ?thesis by (simp add: get_cookies_lowered)
  qed
qed

lemma wf_after_request:
  assumes "wf_store (client_cookies c)"
    and "request send c netloc headers cookies body = (c', result)"
  shows "wf_store (client_cookies c')"
proof (cases "session_established c")
  case False
  with assms show ?thesis by (simp add: request_def del: session_established.simps)
next
  case True
  let ?D = "extract_domain netloc"
  obtain s1 where s1: "keep_request_cookies (client_cookies c) cookies ?D = Inr s1"
    by (simp add: keep_request_cookies_eq)
  from assms(1) s1 have wf1: "wf_store s1" by (rule wf_store_keep)
  from request_store[OF True s1 assms(2)]
  show ?thesis
  proof
    assume "send (payload_headers s1 ?D headers cookies body) = None \<and> client_cookies c' = s1"
    with wf1 show ?thesis by simp
  next
    assume "\<exists>resp body_hex. send (payload_headers s1 ?D headers cookies body)
              = Some (resp, body_hex)
            \<and> update_cookies_from_response s1 resp ?D = Inr (client_cookies c')"
    then obtain rh where "update_cookies_from_response s1 rh ?D = Inr (client_cookies c')"
      by blast
    with wf1 show ?thesis by (rule wf_store_update)
  qed
qed

lemma later_request_cookie:
  assumes "wf_store store"
    and "store = pre @ (D, cm) # post"
    and "map_of cm n = Some v"
    and "\<forall>(d, cm')\<in>set post. (d = D \<or> domain_matches d D) \<longrightarrow> map_of cm' n = None"
  shows "(n, v) \<in> set (merged_cookies store None D)
       \<and> (''cookie'', cookie_str (merged_cookies store None D))
           \<in> set (payload_headers store D headers None body)
       \<and> (\<exists>a b. cookie_str (merged_cookies store None D) = a @ (n @ ''='' @ v) @ b)"
proof -
  from assms(1) have "list_all (\<lambda>(d, cm). wf_dict cm) store" by (simp add: wf_store_def)
  from merged_at[OF this assms(2,3,4)]
  have "(n, v) \<in> set (merged_cookies store None D)" by (rule map_of_SomeD)
  with cookie_in_headers[OF this] show ?thesis by (simp add: payload_headers_def)
qed

section \<open>Facts about objects\<close>

lemma h_read_old: "r < length h \<Longrightarrow> h_read (h @ xs) r = h_read h r"
  by (simp add: h_read_def nth_append)

lemma h_read_Some_less: "h_read h r = Some ob \<Longrightarrow> r < length h"
  by (simp add: h_read_def split: if_splits)

lemma h_read_dict_less: "h_read_dict h r = Some d \<Longrightarrow> r < length h"
  by (auto simp: h_read_dict_def dest: h_read_Some_less split: option.splits)

lemma h_read_store_less: "h_read_store h r = Some d \<Longrightarrow> r < length h"
  by (auto simp: h_read_store_def dest: h_read_Some_less split: option.splits)

lemma h_read_list_less: "h_read_list h r = Some d \<Longrightarrow> r < length h"
  by (auto simp: h_read_list_def dest: h_read_Some_less split: option.splits)

lemma h_read_dict_agree:
  assumes "\<forall>a<length h. h_read h2 a = h_read h a" and "h_read_dict h r = Some d"
  shows "h_read_dict h2 r = Some d"
proof -
  from assms(2) have "r < length h" by (rule h_read_dict_less)
  with assms(1) have "h_read h2 r = h_read h r" by simp
  with assms(2) show ?thesis by (simp add: h_read_dict_def)
qed

lemma h_read_store_agree:
  assumes "\<forall>a<length h. h_read h2 a = h_read h a" and "h_read_store h r = Some d"
  shows "h_read_store h2 r = Some d"
proof -
  from assms(2) have "r < length h" by (rule h_read_store_less)
  with assms(1) have "h_read h2 r = h_read h r" by simp
  with assms(2) show ?thesis by (simp add: h_read_store_def)
qed

lemma h_read_list_agree:
  assumes "\<forall>a<length h. h_read h2 a = h_read h a" and "h_read_list h r = Some d"
  shows "h_read_list h2 r = Some d"
proof -
  from assms(2) have "r < length h" by (rule h_read_list_less)
  with assms(1) have "h_read h2 r = h_read h r" by simp
  with assms(2) show ?thesis by (simp add: h_read_list_def)
qed

lemma deref_items_agree:
  assumes "\<forall>a<length h. h_read h2 a = h_read h a"
  shows "deref_items h items = Some store \<Longrightarrow> deref_items h2 items = Some store"
proof (induction items arbitrary: store)
  case Nil
  then show ?case by simp
next
  case (Cons x items)
  obtain d r where x: "x = (d, r)" by (cases x)
  from Cons.prems x obtain cm rest where cm: "h_read_dict h r = Some cm"
    and rest: "deref_items h items = Some rest" and store: "store = (d, cm) # rest"
    by (auto simp: bind_eq_Some_conv)
  from assms cm have "h_read_dict h2 r = Some cm" by (rule h_read_dict_agree)
  with Cons.IH[OF rest] x store show ?case by simp
qed

lemma store_of_agree:
  assumes "\<forall>a<length h. h_read h2 a = h_read h a" and "store_of h r = Some store"
  shows "store_of h2 r = Some store"
proof -
  from assms(2) obtain items where i: "h_read_store h r = Some items"
    and d: "deref_items h items = Some store"
    by (auto simp: store_of_def bind_eq_Some_conv)
  from assms(1) i have "h_read_store h2 r = Some items" by (rule h_read_store_agree)
  moreover from assms(1) d have "deref_items h2 items = Some store" by (rule deref_items_agree)
  ultimately show ?thesis by (simp add: store_of_def)
qed

lemma agree_append: "\<forall>a<length h. h_read (h @ xs) a = h_read h a"
  by (simp add: h_read_old)

lemma agree_write:
  "length h \<le> r \<Longrightarrow> h_write (h @ xs) r ob = Some h2 \<Longrightarrow> \<forall>a<length h. h_read h2 a = h_read h a"
  by (auto simp: h_write_def h_read_def nth_append nth_list_update split: if_splits)

lemma deref_items_lookup:
  "deref_items h items = Some store \<Longrightarrow>
   (case map_of items k of
      None \<Rightarrow> map_of store k = None
    | Some r \<Rightarrow> \<exists>cm. h_read_dict h r = Some cm \<and> map_of store k = Some cm)"
proof (induction items arbitrary: store)
  case Nil
  then show ?case by simp
next
  case (Cons x items)
  obtain d r where x: "x = (d, r)" by (cases x)
  from Cons.prems x obtain cm rest where cm: "h_read_dict h r = Some cm"
    and rest: "deref_items h items = Some rest" and store: "store = (d, cm) # rest"
    by (auto simp: bind_eq_Some_conv)
  show ?case
  proof (cases "d = k")
    case True
    with x cm store show ?thesis by simp
  next
    case False
    with Cons.IH[OF rest, of ] x store show ?thesis
      by (cases "map_of items k") simp_all
  qed
qed

lemma all_cookies_id: "all_cookies store = store"
  by (induction store) (auto simp: all_cookies_def)

lemma h_get_cookies_eq:
  assumes "store_of h sc = Some store"
  shows "h_get_cookies_for_domain h sc domain =
     Some (h @ [StrDict [], StrDict (get_cookies_for_domain store domain)], Suc (length h))"
proof -
  from assms obtain items where i: "h_read_store h sc = Some items"
    and d: "deref_items h items = Some store"
    by (auto simp: store_of_def bind_eq_Some_conv)
  let ?h1 = "h @ [StrDict []]"
  let ?found = "case map_of items (py_lower domain) of None \<Rightarrow> length h | Some r \<Rightarrow> r"
  have "h_read_dict ?h1 ?found = Some (get_cookies_for_domain store domain)"
  proof (cases "map_of items (py_lower domain)")
    case None
    with deref_items_lookup[OF d, of "py_lower domain"]
    have "map_of store (py_lower domain) = None" by simp
    with None show ?thesis
      by (simp add: get_cookies_for_domain_def h_read_dict_def h_read_def)
  next
    case (Some r)
    with deref_items_lookup[OF d, of "py_lower domain"]
    obtain cm where cm: "h_read_dict h r = Some cm" and m: "map_of store (py_lower domain) = Some cm"
      by auto
    from agree_append cm have "h_read_dict ?h1 r = Some cm" by (rule h_read_dict_agree)
    with Some m show ?thesis by (simp add: get_cookies_for_domain_def)
  qed
  with i show ?thesis
    by (simp add: h_get_cookies_for_domain_def h_alloc_def)
qed

lemma copy_items_ok:
  "deref_items h items = Some store \<Longrightarrow>
   \<exists>ys items'. copy_items h items = Some (h @ ys, items')
      \<and> deref_items (h @ ys) items' = Some store
      \<and> (\<forall>(d, a)\<in>set items'. length h \<le> a)"
proof (induction items arbitrary: h store)
  case Nil
  then have "copy_items h [] = Some (h @ [], []) \<and> deref_items (h @ []) [] = Some store
      \<and> (\<forall>(d, a)\<in>set ([] :: (string \<times> ref) list). length h \<le> a)"
    by simp
  then show ?case by blast
next
  case (Cons x items)
  obtain d r where x: "x = (d, r)" by (cases x)
  from Cons.prems x obtain cm rest where cm: "h_read_dict h r = Some cm"
    and rest: "deref_items h items = Some rest" and store: "store = (d, cm) # rest"
    by (auto simp: bind_eq_Some_conv)
  let ?h1 = "h @ [StrDict cm]"
  from agree_append rest have "deref_items ?h1 items = Some rest" by (rule deref_items_agree)
  from Cons.IH[OF this] obtain ys items' where
    c: "copy_items ?h1 items = Some (?h1 @ ys, items')"
    and dr: "deref_items (?h1 @ ys) items' = Some rest"
    and fr: "\<forall>(d, a)\<in>set items'. length ?h1 \<le> a"
    by blast
  have new: "h_read_dict (h @ StrDict cm # ys) (length h) = Some cm"
    by (simp add: h_read_dict_def h_read_def)
  have "copy_items h (x # items) = Some (h @ (StrDict cm # ys), (d, length h) # items')"
    using cm c by (simp add: x h_alloc_def)
  moreover have "deref_items (h @ (StrDict cm # ys)) ((d, length h) # items') = Some store"
    using dr new by (simp add: store)
  moreover have "\<forall>(d, a)\<in>set ((d, length h) # items'). length h \<le> a"
    using fr by auto
  ultimately show ?case by blast
qed

lemma deref_items_refs:
  "deref_items h items = Some store \<Longrightarrow> \<forall>(d, a)\<in>set items. a < length h"
proof (induction items arbitrary: store)
  case Nil
  then show ?case by simp
next
  case (Cons x items)
  obtain d r where x: "x = (d, r)" by (cases x)
  from Cons.prems x obtain cm rest where cm: "h_read_dict h r = Some cm"
    and rest: "deref_items h items = Some rest"
    by (auto simp: bind_eq_Some_conv)
  from cm have "r < length h" by (rule h_read_dict_less)
  with Cons.IH[OF rest] x show ?case by simp
qed

lemma write_new_keeps_store:
  assumes "store_of h sc = Some store" and "length h \<le> a" and "a < length (h @ xs)"
  shows "\<exists>h''. h_write (h @ xs) a ob = Some h'' \<and> store_of h'' sc = Some store"
proof -
  from assms(3) obtain h'' where w: "h_write (h @ xs) a ob = Some h''"
    by (simp add: h_write_def)
  from assms(2) w have "\<forall>b<length h. h_read h'' b = h_read h b" by (rule agree_write)
  from this assms(1) have "store_of h'' sc = Some store" by (rule store_of_agree)
  with w show ?thesis by blast
qed

lemma h_cookies_ok:
  assumes "store_of h sc = Some store"
  shows "\<exists>ys items. h_cookies h sc = Some (h @ ys @ [StoreDict items], length h + length ys)
      \<and> deref_items (h @ ys) items = Some store
      \<and> (\<forall>(d, a)\<in>set items. length h \<le> a)"
proof -
  from assms obtain items0 where i: "h_read_store h sc = Some items0"
    and d: "deref_items h items0 = Some store"
    by (auto simp: store_of_def bind_eq_Some_conv)
  from copy_items_ok[OF d] obtain ys items where
    c: "copy_items h items0 = Some (h @ ys, items)"
    and dr: "deref_items (h @ ys) items = Some store"
    and fr: "\<forall>(d, a)\<in>set items. length h \<le> a"
    by blast
  from i c have "h_cookies h sc = Some (h @ ys @ [StoreDict items], length h + length ys)"
    by (simp add: h_cookies_def h_alloc_def)
  with dr fr show ?thesis by blast
qed

lemma h_append_new:
  "h_append (h @ [A, PairList n, PairList p]) (Suc (length h)) x =
     Some (h @ [A, PairList (n @ [x]), PairList p])"
  by (simp add: h_append_def h_read_list_def h_read_def h_write_def nth_append list_update_append)

lemma h_append_new2:
  "h_append (h @ [A, PairList n, PairList p]) (Suc (Suc (length h))) x =
     Some (h @ [A, PairList n, PairList (p @ [x])])"
  by (simp add: h_append_def h_read_list_def h_read_def h_write_def nth_append list_update_append)

lemma h_split_headers_eq:
  "h_split_headers (h @ [A, PairList n, PairList p]) entries
      (Suc (length h)) (Suc (Suc (length h))) =
   Some (h @ [A, PairList (fst (split_headers entries n p)),
                 PairList (snd (split_headers entries n p))])"
proof (induction entries n p rule: split_headers.induct)
  case (1 n p)
  then show ?case by simp
next
  case (2 k v rest n p)
  then show ?case by (simp add: Let_def h_append_new h_append_new2)
qed

lemma h_update_new:
  assumes "h_read_dict h r = Some dc"
  shows "h_update (h @ [A, N, P, StrDict m]) (Suc (Suc (Suc (length h)))) r =
     Some (h @ [A, N, P, StrDict (dict_update m dc)])"
proof -
  from agree_append assms have "h_read_dict (h @ [A, N, P, StrDict m]) r = Some dc"
    by (rule h_read_dict_agree)
  then show ?thesis
    by (simp add: h_update_def h_read_dict_def[of _ "Suc (Suc (Suc (length h)))"]
        h_read_def h_write_def nth_append list_update_append)
qed

lemma h_merge_eq:
  "deref_items h items = Some store \<Longrightarrow>
   h_merge_session_cookies (h @ [A, N, P, StrDict m]) items domain (Suc (Suc (Suc (length h)))) =
     Some (h @ [A, N, P, StrDict (merge_session_cookies store domain m)])"
proof (induction items arbitrary: store m)
  case Nil
  then show ?case by simp
next
  case (Cons x items)
  obtain d r where x: "x = (d, r)" by (cases x)
  from Cons.prems x obtain cm rest where cm: "h_read_dict h r = Some cm"
    and rest: "deref_items h items = Some rest" and store: "store = (d, cm) # rest"
    by (auto simp: bind_eq_Some_conv)
  show ?case
    by (simp add: x store h_update_new[OF cm] Cons.IH[OF rest])
qed

lemma h_headers_list_eq:
  "headers_of h href = Some headers \<Longrightarrow>
   h_headers_list h href = Some (h @ [PairList (headers_list_of headers)], length h)"
  by (cases href) (auto simp: h_alloc_def)

lemma h_truthy_eq:
  "cookies_of h ck = Some cookies \<Longrightarrow> h_truthy (h @ xs) ck = Some (cookies_given cookies)"
proof (cases ck)
  case None
  assume "cookies_of h ck = Some cookies"
  with None show ?thesis by auto
next
  case (Some r)
  assume "cookies_of h ck = Some cookies"
  with Some obtain c where c: "h_read_dict h r = Some c" and ck: "cookies = Some c" by auto
  from agree_append c have "h_read_dict (h @ xs) r = Some c" by (rule h_read_dict_agree)
  with Some ck show ?thesis by simp
qed

lemma h_append_result:
  "h_append (h @ [A, PairList n, P, M]) (Suc (length h)) x =
     Some (h @ [A, PairList (n @ [x]), P, M])"
  by (simp add: h_append_def h_read_list_def h_read_def h_write_def nth_append list_update_append)

lemma h_extend_result:
  "h_extend (h @ [A, PairList n, PairList p, M]) (Suc (length h)) (Suc (Suc (length h))) =
     Some (h @ [A, PairList (n @ p), PairList p, M])"
  by (simp add: h_extend_def h_read_list_def h_read_def h_write_def nth_append list_update_append)

lemma h_read_merged:
  "h_read_dict (h @ [A, N, P, StrDict m]) (Suc (Suc (Suc (length h)))) = Some m"
  by (simp add: h_read_dict_def h_read_def nth_append)

lemma h_read_headers_list:
  "h_read_list (h @ [PairList l, N, P]) (length h) = Some l"
  by (simp add: h_read_list_def h_read_def nth_append)

lemma h_prepare_headers_eq:
  assumes st: "store_of h sc = Some store"
    and href: "headers_of h href = Some headers"
    and ck: "cookies_of h ck = Some cookies"
  shows "h_prepare_headers h sc href ck domain =
     Some (h @ [PairList (headers_list_of headers),
                PairList (prepare_headers store headers cookies domain),
                PairList (snd (split_headers (headers_list_of headers) [] [])),
                StrDict (merged_cookies store cookies domain)],
           Suc (length h))"
proof -
  let ?hl = "headers_list_of headers"
  let ?n = "fst (split_headers ?hl [] [])"
  let ?p = "snd (split_headers ?hl [] [])"
  let ?ms = "merge_session_cookies store domain []"
  let ?m = "merged_cookies store cookies domain"
  let ?A = "PairList ?hl"
  from st obtain items where i: "h_read_store h sc = Some items"
    and d: "deref_items h items = Some store"
    by (auto simp: store_of_def bind_eq_Some_conv)
  have s1: "h_headers_list h href = Some (h @ [?A], length h)"
    using href by (rule h_headers_list_eq)
  have s3: "h_read_list (h @ [?A, PairList [], PairList []]) (length h) = Some ?hl"
    by (rule h_read_headers_list)
  have s4: "h_split_headers (h @ [?A, PairList [], PairList []]) ?hl
      (Suc (length h)) (Suc (Suc (length h))) = Some (h @ [?A, PairList ?n, PairList ?p])"
    by (rule h_split_headers_eq)
  have s5: "h_read_store (h @ [?A, PairList ?n, PairList ?p, StrDict []]) sc = Some items"
    using agree_append i by (rule h_read_store_agree)
  have s6: "h_merge_session_cookies (h @ [?A, PairList ?n, PairList ?p, StrDict []]) items domain
      (Suc (Suc (Suc (length h)))) = Some (h @ [?A, PairList ?n, PairList ?p, StrDict ?ms])"
    using d by (rule h_merge_eq)
  have s7: "h_truthy (h @ [?A, PairList ?n, PairList ?p, StrDict ?ms]) ck
      = Some (cookies_given cookies)"
    using ck by (rule h_truthy_eq)
  have s8: "(if cookies_given cookies
       then h_update (h @ [?A, PairList ?n, PairList ?p, StrDict ?ms])
              (Suc (Suc (Suc (length h)))) (the ck)
       else Some (h @ [?A, PairList ?n, PairList ?p, StrDict ?ms]))
     = Some (h @ [?A, PairList ?n, PairList ?p, StrDict ?m])"
  proof (cases "cookies_given cookies")
    case False
    then show ?thesis by (simp add: merged_cookies_def)
  next
    case True
    then obtain c where c: "cookies = Some c" by (cases cookies) auto
    with ck obtain r where r: "ck = Some r" and rd: "h_read_dict h r = Some c"
      by (cases ck) auto
    from True c r show ?thesis
      by (simp add: h_update_new[OF rd] merged_cookies_def)
  qed
  have s9: "h_read_dict (h @ [?A, PairList ?n, PairList ?p, StrDict ?m])
      (Suc (Suc (Suc (length h)))) = Some ?m"
    by (rule h_read_merged)
  let ?n' = "if ?m \<noteq> [] then ?n @ [(''cookie'', cookie_str ?m)] else ?n"
  have s10: "(if ?m \<noteq> []
       then h_append (h @ [?A, PairList ?n, PairList ?p, StrDict ?m]) (Suc (length h))
              (''cookie'', cookie_str ?m)
       else Some (h @ [?A, PairList ?n, PairList ?p, StrDict ?m]))
     = Some (h @ [?A, PairList ?n', PairList ?p, StrDict ?m])"
    by (simp add: h_append_result)
  have s11: "h_extend (h @ [?A, PairList ?n', PairList ?p, StrDict ?m])
      (Suc (length h)) (Suc (Suc (length h)))
     = Some (h @ [?A, PairList (?n' @ ?p), PairList ?p, StrDict ?m])"
    by (rule h_extend_result)
  have res: "?n' @ ?p = prepare_headers store headers cookies domain"
    by (simp add: prepare_headers_def Let_def split_def)
  have "h_prepare_headers h sc href ck domain =
      Some (h @ [?A, PairList (?n' @ ?p), PairList ?p, StrDict ?m], Suc (length h))"
    unfolding h_prepare_headers_def
    by (simp only: s1 Option.bind.simps prod.case h_alloc_def Let_def append_assoc append_Cons
        append_Nil length_append list.size add_Suc_right add_0_right
        s3 s4 s5 s6 s7 s8 s9 s10 s11)
  with res show ?thesis by simp
qed

lemma headers_of_agree:
  assumes "\<forall>a<length h. h_read h2 a = h_read h a" and "headers_of h href = Some hv"
  shows "headers_of h2 href = Some hv"
proof (cases href)
  case HeadersRefNone
  with assms(2) show ?thesis by simp
next
  case (HeadersRefDict r)
  with assms(2) obtain d where "h_read_dict h r = Some d" and hv: "hv = HeadersDict d" by auto
  with assms(1) have "h_read_dict h2 r = Some d" by (simp add: h_read_dict_agree)
  with HeadersRefDict hv show ?thesis by simp
next
  case (HeadersRefList r)
  with assms(2) obtain l where "h_read_list h r = Some l" and hv: "hv = HeadersList l" by auto
  with assms(1) have "h_read_list h2 r = Some l" by (simp add: h_read_list_agree)
  with HeadersRefList hv show ?thesis by simp
qed

lemma cookies_of_agree:
  assumes "\<forall>a<length h. h_read h2 a = h_read h a" and "cookies_of h ck = Some cv"
  shows "cookies_of h2 ck = Some cv"
proof (cases ck)
  case None
  with assms(2) show ?thesis by simp
next
  case (Some r)
  with assms(2) obtain c where "h_read_dict h r = Some c" and cv: "cv = Some c" by auto
  with assms(1) have "h_read_dict h2 r = Some c" by (simp add: h_read_dict_agree)
  with Some cv show ?thesis by simp
qed

section \<open>Facts about ingesting a whole response\<close>

lemma find_snoc:
  "find P (xs @ [x]) =
     (case find P xs of None \<Rightarrow> (if P x then Some x else None) | Some y \<Rightarrow> Some y)"
  by (induction xs) auto

lemma store_parsed_lookup:
  "store_parsed_cookies store cs rd = Inr store' \<Longrightarrow>
   map_of (case map_of store' D of None \<Rightarrow> [] | Some cm \<Rightarrow> cm) n =
     (case find (\<lambda>(n', v', d'). (if d' \<noteq> [] then d' else rd) = D \<and> n' = n) (rev cs) of
        None \<Rightarrow> map_of (case map_of store D of None \<Rightarrow> [] | Some cm \<Rightarrow> cm) n
      | Some (n', v', d') \<Rightarrow> Some v')"
proof (induction store cs rd arbitrary: store' rule: store_parsed_cookies.induct)
  case (1 store rd)
  then show ?case by simp
next
  case (2 store n0 v0 d0 rest rd)
  let ?sd = "if d0 \<noteq> [] then d0 else rd"
  let ?s1 = "dict_set ?sd (dict_set n0 v0 (case map_of store ?sd of None \<Rightarrow> [] | Some cm \<Rightarrow> cm)) store"
  let ?P = "\<lambda>(n', v', d'). (if d' \<noteq> [] then d' else rd) = D \<and> n' = n"
  have s1: "store_cookie store ?sd n0 v0 = Inr ?s1" by (rule store_cookie_eq)
  from "2.prems" s1 have "store_parsed_cookies ?s1 rest rd = Inr store'"
    by (simp add: Let_def)
  from "2.IH"[OF refl s1 this]
  have ih: "map_of (case map_of store' D of None \<Rightarrow> [] | Some cm \<Rightarrow> cm) n =
     (case find ?P (rev rest) of
        None \<Rightarrow> map_of (case map_of ?s1 D of None \<Rightarrow> [] | Some cm \<Rightarrow> cm) n
      | Some (n', v', d') \<Rightarrow> Some v')" .
  have one: "map_of (case map_of ?s1 D of None \<Rightarrow> [] | Some cm \<Rightarrow> cm) n =
      (if ?P (n0, v0, d0) then Some v0
       else map_of (case map_of store D of None \<Rightarrow> [] | Some cm \<Rightarrow> cm) n)"
  proof (cases "?sd = D")
    case True
    then show ?thesis unfolding entry_dict_set by (simp add: map_of_dict_set_apply)
  next
    case False
    then have "D \<noteq> ?sd" by blast
    then have "(case map_of ?s1 D of None \<Rightarrow> [] | Some cm \<Rightarrow> cm) =
        (case map_of store D of None \<Rightarrow> [] | Some cm \<Rightarrow> cm)"
      unfolding entry_dict_set by (simp only: if_False)
    with False show ?thesis by simp
  qed
  show ?case
  proof (cases "find ?P (rev rest)")
    case None
    with ih one show ?thesis by (simp add: find_snoc)
  next
    case (Some y)
    with ih show ?thesis by (simp add: find_snoc)
  qed
qed

lemma parse_set_cookie_concat:
  "parse_set_cookie vals =
     Inr (concat (map (\<lambda>value. case parse_cookie_value value of Inl e \<Rightarrow> [] | Inr l \<Rightarrow> l) vals))"
proof (induction vals)
  case Nil
  then show ?case by simp
next
  case (Cons raw rest)
  obtain l where "parse_cookie_value raw = Inr l" by (simp add: parse_cookie_value_eq)
  with Cons show ?case by simp
qed

lemma response_cookies_concat:
  "response_cookies hs =
     concat (map (\<lambda>(hname, vals).
        if py_lower hname = ''set-cookie''
        then concat (map (\<lambda>value. case parse_cookie_value value of Inl e \<Rightarrow> [] | Inr l \<Rightarrow> l) vals)
        else []) hs)"
  by (induction hs) (auto simp: parse_set_cookie_concat)

lemma store_parsed_indep:
  "\<forall>(n, v, d)\<in>set cs. d \<noteq> [] \<Longrightarrow>
   store_parsed_cookies store cs R = store_parsed_cookies store cs R'"
proof (induction store cs R rule: store_parsed_cookies.induct)
  case (1 store rd)
  then show ?case by simp
next
  case (2 store n v d rest rd)
  from "2.prems" have d: "d \<noteq> []" and r: "\<forall>(n, v, d)\<in>set rest. d \<noteq> []" by auto
  let ?s1 = "dict_set d (dict_set n v (case map_of store d of None \<Rightarrow> [] | Some cm \<Rightarrow> cm)) store"
  have s1: "store_cookie store (if d \<noteq> [] then d else rd) n v = Inr ?s1"
    using d store_cookie_eq[of store d n v] by simp
  from "2.IH"[OF refl s1 r] d show ?case by (simp add: store_cookie_eq Let_def)
qed

lemma update_lookup:
  "\<exists>store'. update_cookies_from_response store hs rd = Inr store'
     \<and> (\<forall>D n. map_of (case map_of store' D of None \<Rightarrow> [] | Some cm \<Rightarrow> cm) n =
          (case find (\<lambda>(n', v', d'). (if d' \<noteq> [] then d' else rd) = D \<and> n' = n)
                  (rev (response_cookies hs)) of
             None \<Rightarrow> map_of (case map_of store D of None \<Rightarrow> [] | Some cm \<Rightarrow> cm) n
           | Some (n', v', d') \<Rightarrow> Some v'))"
proof -
  obtain store' where s: "update_cookies_from_response store hs rd = Inr store'"
    using update_cookies_total by blast
  then have "store_parsed_cookies store (response_cookies hs) rd = Inr store'"
    by (simp add: update_cookies_response_cookies)
  then have "\<forall>D n. map_of (case map_of store' D of None \<Rightarrow> [] | Some cm \<Rightarrow> cm) n =
          (case find (\<lambda>(n', v', d'). (if d' \<noteq> [] then d' else rd) = D \<and> n' = n)
                  (rev (response_cookies hs)) of
             None \<Rightarrow> map_of (case map_of store D of None \<Rightarrow> [] | Some cm \<Rightarrow> cm) n
           | Some (n', v', d') \<Rightarrow> Some v')"
    by (intro allI store_parsed_lookup)
  with s show ?thesis by blast
qed

lemma entry_Some:
  "map_of (case map_of store D of None \<Rightarrow> [] | Some cm \<Rightarrow> cm) n = Some v \<Longrightarrow>
   \<exists>cm. map_of store D = Some cm \<and> map_of cm n = Some v"
  by (cases "map_of store D") simp_all

lemma find_rev_Some:
  "x \<in> set xs \<Longrightarrow> P x \<Longrightarrow> \<exists>y. find P (rev xs) = Some y \<and> P y"
proof -
  assume "x \<in> set xs" "P x"
  then have "\<exists>y\<in>set (rev xs). P y" by auto
  then obtain y where "find P (rev xs) = Some y"
    by (cases "find P (rev xs)") (auto simp: find_None_iff)
  moreover then have "P y" by (auto simp: find_Some_iff)
  ultimately show ?thesis by blast
qed

lemma parsed_value_explicit:
  "(case parse_cookie_value value of Inl e \<Rightarrow> [] | Inr l \<Rightarrow> l) =
     (if CHR ''='' \<in> set (takeWhile (\<lambda>c. c \<noteq> CHR '';'') value)
      then [(py_strip (takeWhile (\<lambda>c. c \<noteq> CHR ''='') (takeWhile (\<lambda>c. c \<noteq> CHR '';'') value)),
             py_strip (tl (dropWhile (\<lambda>c. c \<noteq> CHR ''='') (takeWhile (\<lambda>c. c \<noteq> CHR '';'') value))),
             (case domain_attribute value of
                None \<Rightarrow> []
              | Some a \<Rightarrow> (if py_startswith (py_lower a) ''.''
                           then drop 1 (py_lower a) else py_lower a)))]
      else [])"
  by (simp add: parse_cookie_value_eq Let_def)

lemma response_cookies_explicit:
  "response_cookies hs =
     concat (map (\<lambda>(hname, vals).
        if py_lower hname = ''set-cookie''
        then concat (map (\<lambda>value.
          if CHR ''='' \<in> set (takeWhile (\<lambda>c. c \<noteq> CHR '';'') value)
          then [(py_strip (takeWhile (\<lambda>c. c \<noteq> CHR ''='') (takeWhile (\<lambda>c. c \<noteq> CHR '';'') value)),
             py_strip (tl (dropWhile (\<lambda>c. c \<noteq> CHR ''='') (takeWhile (\<lambda>c. c \<noteq> CHR '';'') value))),
             (case domain_attribute value of
                None \<Rightarrow> []
              | Some a \<Rightarrow> (if py_startswith (py_lower a) ''.''
                           then drop 1 (py_lower a) else py_lower a)))]
          else []) vals)
        else []) hs)"
  unfolding response_cookies_concat parsed_value_explicit ..

lemma response_cookies_member:
  assumes "(hname, vals) \<in> set hs" and "py_lower hname = ''set-cookie''"
    and "value \<in> set vals" and "parse_cookie_value value = Inr l" and "x \<in> set l"
  shows "x \<in> set (response_cookies hs)"
  unfolding response_cookies_concat using assms by force

lemma stored_after_update:
  assumes u: "update_cookies_from_response store hs rd = Inr store'"
    and m: "(n, v, d) \<in> set (response_cookies hs)"
  shows "\<exists>cm v'. map_of store' (if d \<noteq> [] then d else rd) = Some cm \<and> map_of cm n = Some v'
      \<and> map_option (\<lambda>(n', v', d'). v')
           (find (\<lambda>(n', v', d'). (if d' \<noteq> [] then d' else rd) = (if d \<noteq> [] then d else rd)
                     \<and> n' = n) (rev (response_cookies hs))) = Some v'"
proof -
  let ?D = "if d \<noteq> [] then d else rd"
  let ?P = "\<lambda>(n', v', d'). (if d' \<noteq> [] then d' else rd) = ?D \<and> n' = n"
  from u have "store_parsed_cookies store (response_cookies hs) rd = Inr store'"
    by (simp add: update_cookies_response_cookies)
  from store_parsed_lookup[OF this, of ?D n]
  have look: "map_of (case map_of store' ?D of None \<Rightarrow> [] | Some cm \<Rightarrow> cm) n =
     (case find ?P (rev (response_cookies hs)) of
        None \<Rightarrow> map_of (case map_of store ?D of None \<Rightarrow> [] | Some cm \<Rightarrow> cm) n
      | Some (n', v', d') \<Rightarrow> Some v')" .
  have "?P (n, v, d)" by simp
  with m obtain y where y: "find ?P (rev (response_cookies hs)) = Some y"
    using find_rev_Some[of "(n, v, d)" "response_cookies hs" ?P] by blast
  obtain n' v' d' where yy: "y = (n', v', d')" by (cases y)
  from look y yy have "map_of (case map_of store' ?D of None \<Rightarrow> [] | Some cm \<Rightarrow> cm) n = Some v'"
    by simp
  from entry_Some[OF this] obtain cm where "map_of store' ?D = Some cm" "map_of cm n = Some v'"
    by blast
  moreover from y yy have "map_option (\<lambda>(n', v', d'). v') (find ?P (rev (response_cookies hs))) = Some v'"
    by simp
  ultimately show ?thesis by blast
qed

section \<open>The order of the outbound headers\<close>

text \<open>
  Claim C1. For every header argument, store, one-off cookies and request domain, the
  composer returns the entries named neither \<open>cookie\<close> nor \<open>priority\<close> (compared after
  \<open>lower()\<close>) in input order, then the one composed \<open>cookie\<close> entry when the merged
  cookies are not empty, then the entries named \<open>priority\<close> in input order. The only
  entry of the output named \<open>cookie\<close> in any case is the composed one: no header of
  that name given by the caller is passed on.
\<close>

theorem prepare_headers_layout:
  "prepare_headers store headers cookies domain =
     filter (\<lambda>(k, v). py_lower k \<noteq> ''cookie'' \<and> py_lower k \<noteq> ''priority'')
        (headers_list_of headers)
     @ (if merged_cookies store cookies domain \<noteq> []
        then [(''cookie'', cookie_str (merged_cookies store cookies domain))] else [])
     @ filter (\<lambda>(k, v). py_lower k = ''priority'') (headers_list_of headers)
   \<and> filter (\<lambda>(k, v). py_lower k = ''cookie'')
        (prepare_headers store headers cookies domain) =
       (if merged_cookies store cookies domain \<noteq> []
        then [(''cookie'', cookie_str (merged_cookies store cookies domain))] else [])"
proof -
  have a: "filter (\<lambda>(k, v). py_lower k = ''cookie'')
             (filter (\<lambda>(k, v). py_lower k \<noteq> ''cookie'' \<and> py_lower k \<noteq> ''priority'') hs) = []"
    for hs :: "(string \<times> string) list"
    by (induction hs) auto
  have b: "filter (\<lambda>(k, v). py_lower k = ''cookie'')
             (filter (\<lambda>(k, v). py_lower k = ''priority'') hs) = []"
    for hs :: "(string \<times> string) list"
    by (induction hs) auto
  show ?thesis
    by (simp add: prepare_headers_eq a b py_lower_cookie del: filter_filter)
qed

theorem prepare_headers_layout_witness:
  "prepare_headers [(''example.com'', [(''a'', ''1'')])]
     (HeadersList [(''Priority'', ''u=1''), (''Accept'', ''x''), (''COOKIE'', ''zz=1''),
                   (''User-Agent'', ''y'')])
     (Some [(''b'', ''9'')]) ''shop.example.com'' =
   [(''Accept'', ''x''), (''User-Agent'', ''y''), (''cookie'', ''a=1; b=9''),
    (''Priority'', ''u=1'')]"
proof -
  have m: "merged_cookies [(''example.com'', [(''a'', ''1'')])] (Some [(''b'', ''9'')])
             ''shop.example.com'' = [(''a'', ''1''), (''b'', ''9'')]"
    by code_simp
  have s: "cookie_str [(''a'', ''1''), (''b'', ''9'')] = ''a=1; b=9''"
    by code_simp
  have l: "py_lower ''Priority'' = ''priority''" "py_lower ''Accept'' = ''accept''"
    "py_lower ''COOKIE'' = ''cookie''" "py_lower ''User-Agent'' = ''user-agent''"
    by code_simp+
  from prepare_headers_layout
    [of "[(''example.com'', [(''a'', ''1'')])]"
        "HeadersList [(''Priority'', ''u=1''), (''Accept'', ''x''), (''COOKIE'', ''zz=1''),
                      (''User-Agent'', ''y'')]"
        "Some [(''b'', ''9'')]" "''shop.example.com''"]
  show ?thesis by (simp add: m s l)
qed

section \<open>The merged cookies\<close>

text \<open>
  Claim C2. The composed cookie value is the join of the merged cookies, which map a
  name as the stored dictionaries of the domains equal to the request domain or parents
  of it do, a domain later in the store's order overriding an earlier one, and the
  one-off cookies overriding all of them. Every name occurs once. So for a name of the
  one-off cookies the composed value holds the one-off value and no stored value of
  that name.
\<close>

theorem merged_cookies_overlay:
  assumes "wf_store store"
    and "case cookies of None \<Rightarrow> True | Some c \<Rightarrow> wf_dict c"
  shows "map_of (merged_cookies store cookies domain) =
           foldl (++) Map.empty (map (\<lambda>(d, cm). map_of cm) (applicable store domain))
             ++ (case cookies of None \<Rightarrow> Map.empty | Some c \<Rightarrow> map_of c)
       \<and> wf_dict (merged_cookies store cookies domain)
       \<and> (merged_cookies store cookies domain \<noteq> [] \<longrightarrow>
            (''cookie'', py_join ''; ''
               (map (\<lambda>(k, v). k @ ''='' @ v) (merged_cookies store cookies domain)))
              \<in> set (prepare_headers store headers cookies domain))
       \<and> (\<forall>c n v. cookies = Some c \<and> map_of c n = Some v \<longrightarrow>
            (n, v) \<in> set (merged_cookies store cookies domain)
            \<and> (\<forall>v'. (n, v') \<in> set (merged_cookies store cookies domain) \<longrightarrow> v' = v)
            \<and> (\<exists>pre post. cookie_str (merged_cookies store cookies domain) =
                  pre @ (n @ ''='' @ v) @ post))"
proof -
  let ?m = "merged_cookies store cookies domain"
  from assms(1) have inner: "list_all (\<lambda>(d, cm). wf_dict cm) store"
    by (simp add: wf_store_def)
  have m: "map_of ?m =
      foldl (++) Map.empty (map (\<lambda>(d, cm). map_of cm) (applicable store domain))
        ++ (case cookies of None \<Rightarrow> Map.empty | Some c \<Rightarrow> map_of c)"
    using inner assms(2) by (rule map_of_merged_cookies)
  have wf: "wf_dict ?m" by (rule merged_cookies_wf)
  have hdr: "?m \<noteq> [] \<longrightarrow>
      (''cookie'', py_join ''; '' (map (\<lambda>(k, v). k @ ''='' @ v) ?m))
        \<in> set (prepare_headers store headers cookies domain)"
    by (simp add: prepare_headers_eq cookie_str_def)
  have one: "(n, v) \<in> set ?m \<and> (\<forall>v'. (n, v') \<in> set ?m \<longrightarrow> v' = v)
        \<and> (\<exists>pre post. cookie_str ?m = pre @ (n @ ''='' @ v) @ post)"
    if "cookies = Some c" and "map_of c n = Some v" for c n v
  proof -
    from that m have look: "map_of ?m n = Some v" by simp
    then have mem: "(n, v) \<in> set ?m" by (rule map_of_SomeD)
    have uniq: "\<forall>v'. (n, v') \<in> set ?m \<longrightarrow> v' = v"
      using wf look by (blast dest: wf_dict_unique)
    from mem have "n @ ''='' @ v \<in> set (map (\<lambda>(k, v). k @ ''='' @ v) ?m)"
      by force
    then have "\<exists>pre post. cookie_str ?m = pre @ (n @ ''='' @ v) @ post"
      unfolding cookie_str_def by (rule py_join_contains)
    with mem uniq show ?thesis by blast
  qed
  from m wf hdr one show ?thesis by blast
qed

theorem merged_cookies_overlay_witness:
  "wf_store [(''domain.com'', [(''x'', ''1'')])] \<and> wf_dict [(''x'', ''2'')]
   \<and> (''x'', ''2'') \<in> set (merged_cookies [(''domain.com'', [(''x'', ''1'')])]
                               (Some [(''x'', ''2'')]) ''domain.com'')
   \<and> (''x'', ''1'') \<notin> set (merged_cookies [(''domain.com'', [(''x'', ''1'')])]
                               (Some [(''x'', ''2'')]) ''domain.com'')
   \<and> cookie_str (merged_cookies [(''domain.com'', [(''x'', ''1'')])]
                    (Some [(''x'', ''2'')]) ''domain.com'') = ''x=2''"
proof -
  have h1: "wf_store [(''domain.com'', [(''x'', ''1'')])]"
    by (simp add: wf_store_def wf_dict_def)
  have h2: "case Some [(''x'', ''2'')] of None \<Rightarrow> True | Some c \<Rightarrow> wf_dict c"
    by (simp add: wf_dict_def)
  have l: "map_of [(''x'', ''2'')] ''x'' = Some ''2''" by simp
  have s: "cookie_str (merged_cookies [(''domain.com'', [(''x'', ''1'')])]
                    (Some [(''x'', ''2'')]) ''domain.com'') = ''x=2''"
    by code_simp
  from merged_cookies_overlay[OF h1 h2, of "''domain.com''" HeadersNone] l
  have "(''x'', ''2'') \<in> set (merged_cookies [(''domain.com'', [(''x'', ''1'')])]
                               (Some [(''x'', ''2'')]) ''domain.com'')
      \<and> (\<forall>v'. (''x'', v') \<in> set (merged_cookies [(''domain.com'', [(''x'', ''1'')])]
                               (Some [(''x'', ''2'')]) ''domain.com'') \<longrightarrow> v' = ''2'')"
    by blast
  then show ?thesis using h1 s by (auto simp: wf_dict_def)
qed

section \<open>Matching a stored domain against a request\<close>

text \<open>
  Claim C3. \<open>_domain_matches(cookie_domain, request_domain)\<close> is false for the empty
  cookie domain; otherwise it is true exactly when the two domains are equal after
  \<open>lower()\<close> or the lowered request domain ends with a dot followed by the lowered
  cookie domain. The request domain \<open>"x" + cookie_domain\<close>, with no dot between, never
  matches.
\<close>

theorem domain_matches_cases:
  "domain_matches [] request_domain = False
   \<and> (domain_matches cookie_domain request_domain \<longleftrightarrow>
        cookie_domain \<noteq> []
        \<and> (py_lower request_domain = py_lower cookie_domain
           \<or> py_endswith (py_lower request_domain) (''.'' @ py_lower cookie_domain)))
   \<and> domain_matches cookie_domain (''x'' @ cookie_domain) = False"
proof -
  have x: "\<not> domain_matches cookie_domain (''x'' @ cookie_domain)"
  proof
    assume "domain_matches cookie_domain (''x'' @ cookie_domain)"
    then have "py_lower (CHR ''x'' # cookie_domain) = py_lower cookie_domain
        \<or> suffix (CHR ''.'' # py_lower cookie_domain) (py_lower (CHR ''x'' # cookie_domain))"
      by (simp add: domain_matches_iff)
    then show False
    proof
      assume "py_lower (CHR ''x'' # cookie_domain) = py_lower cookie_domain"
      then have "length (py_lower (CHR ''x'' # cookie_domain)) = length (py_lower cookie_domain)"
        by simp
      then show False by (simp add: py_lower_length)
    next
      assume "suffix (CHR ''.'' # py_lower cookie_domain) (py_lower (CHR ''x'' # cookie_domain))"
      then have "CHR ''.'' # py_lower cookie_domain = py_lower (CHR ''x'' # cookie_domain)"
        by (rule suffix_same_length) (simp add: py_lower_length)
      then show False by (simp add: py_lower_def py_lower_char_x)
    qed
  qed
  have e: "domain_matches [] request_domain = False"
    by (simp add: domain_matches_def)
  from x e show ?thesis
    by (simp add: domain_matches_iff py_endswith_def)
qed

theorem domain_matches_cases_witness:
  "domain_matches ''example.com'' ''Shop.Example.COM''
   \<and> domain_matches ''Example.com'' ''eXample.com''
   \<and> \<not> domain_matches ''example.com'' ''xexample.com''
   \<and> \<not> domain_matches ''example.com'' ''example.org''"
proof -
  have l: "py_lower ''example.com'' = ''example.com''"
    "py_lower ''Shop.Example.COM'' = ''shop.example.com''"
    "py_lower ''Example.com'' = ''example.com''"
    "py_lower ''eXample.com'' = ''example.com''"
    "py_lower ''example.org'' = ''example.org''"
    by code_simp+
  have s: "py_endswith ''shop.example.com'' ''.example.com''"
    "\<not> py_endswith ''example.org'' ''.example.com''"
    by code_simp+
  from domain_matches_cases[of "''Shop.Example.COM''" "''example.com''"]
    domain_matches_cases[of "''eXample.com''" "''Example.com''"]
    domain_matches_cases[of "''example.org''" "''example.com''"]
  show ?thesis using l s by simp
qed

section \<open>Ingesting Set-Cookie values\<close>

text \<open>
  Claim C4. A raw Set-Cookie value whose first \<open>;\<close>-delimited segment contains \<open>=\<close>
  yields one cookie: its name is the trimmed text before the first \<open>=\<close> of that
  segment, its value the trimmed text after it, its declared domain the trimmed,
  lower-cased text of the first \<open>domain=\<close> segment without one leading dot. For every
  list of response headers, ingestion returns a store in which each such value of each
  \<open>Set-Cookie\<close> header has its name under its storage domain (the declared domain when
  that is not empty, the request domain otherwise); a name under a domain maps to the
  value of the last cookie of the response for that name and domain, and as before when
  the response has none. For a response of one such value the store is the old one with
  that cookie set. Ingesting \<open>sid=abc123; Domain=.example.com; Path=/; HttpOnly\<close> for
  the request domain \<open>shop.example.com\<close> makes the cookies of \<open>example.com\<close> map \<open>sid\<close> to
  \<open>abc123\<close>, whatever the store held before.
\<close>

theorem set_cookie_stored:
  "let seg = (\<lambda>value. takeWhile (\<lambda>c. c \<noteq> CHR '';'') value);
       name = (\<lambda>value. py_strip (takeWhile (\<lambda>c. c \<noteq> CHR ''='') (seg value)));
       val = (\<lambda>value. py_strip (tl (dropWhile (\<lambda>c. c \<noteq> CHR ''='') (seg value))));
       declared = (\<lambda>value. case domain_attribute value of
                      None \<Rightarrow> []
                    | Some a \<Rightarrow> (if py_startswith (py_lower a) ''.''
                                 then drop 1 (py_lower a) else py_lower a));
       storage = (\<lambda>d. if d \<noteq> [] then d else request_domain);
       parsed = concat (map (\<lambda>(hname, values).
                  if py_lower hname = ''set-cookie''
                  then concat (map (\<lambda>value.
                         if CHR ''='' \<in> set (seg value)
                         then [(name value, val value, declared value)] else []) values)
                  else []) headers)
   in (\<forall>value. CHR ''='' \<in> set (seg value) \<longrightarrow>
          parse_cookie_value value = Inr [(name value, val value, declared value)])
    \<and> (\<exists>store'. update_cookies_from_response store headers request_domain = Inr store'
          \<and> (\<forall>D n. map_of (case map_of store' D of None \<Rightarrow> [] | Some cm \<Rightarrow> cm) n =
                (case find (\<lambda>(n', v', d'). storage d' = D \<and> n' = n) (rev parsed) of
                   None \<Rightarrow> map_of (case map_of store D of None \<Rightarrow> [] | Some cm \<Rightarrow> cm) n
                 | Some (n', v', d') \<Rightarrow> Some v'))
          \<and> (\<forall>(hname, values)\<in>set headers. py_lower hname = ''set-cookie'' \<longrightarrow>
                (\<forall>value\<in>set values. CHR ''='' \<in> set (seg value) \<longrightarrow>
                   (\<exists>cm v'. map_of store' (storage (declared value)) = Some cm
                        \<and> map_of cm (name value) = Some v'))))
    \<and> (\<forall>hname value. py_lower hname = ''set-cookie'' \<and> CHR ''='' \<in> set (seg value) \<longrightarrow>
          update_cookies_from_response store [(hname, [value])] request_domain =
            Inr (dict_set (storage (declared value))
                   (dict_set (name value) (val value)
                      (case map_of store (storage (declared value)) of
                         None \<Rightarrow> [] | Some cm \<Rightarrow> cm))
                   store))
    \<and> (\<exists>store'. update_cookies_from_response store
                    [(''Set-Cookie'', [''sid=abc123; Domain=.example.com; Path=/; HttpOnly''])]
                    ''shop.example.com'' = Inr store'
          \<and> map_of (get_cookies_for_domain store' ''example.com'') ''sid'' = Some ''abc123'')"
proof -
  let ?seg = "\<lambda>value. takeWhile (\<lambda>c. c \<noteq> CHR '';'') value"
  let ?name = "\<lambda>value. py_strip (takeWhile (\<lambda>c. c \<noteq> CHR ''='') (?seg value))"
  let ?val = "\<lambda>value. py_strip (tl (dropWhile (\<lambda>c. c \<noteq> CHR ''='') (?seg value)))"
  let ?declared = "\<lambda>value. case domain_attribute value of
                      None \<Rightarrow> []
                    | Some a \<Rightarrow> (if py_startswith (py_lower a) ''.''
                                 then drop 1 (py_lower a) else py_lower a)"
  let ?storage = "\<lambda>d. if d \<noteq> [] then d else request_domain"
  let ?parsed = "concat (map (\<lambda>(hname, values).
                  if py_lower hname = ''set-cookie''
                  then concat (map (\<lambda>value.
                         if CHR ''='' \<in> set (?seg value)
                         then [(?name value, ?val value, ?declared value)] else []) values)
                  else []) headers)"
  have rc: "response_cookies headers = ?parsed" by (rule response_cookies_explicit)
  have p: "parse_cookie_value value = Inr [(?name value, ?val value, ?declared value)]"
    if "CHR ''='' \<in> set (?seg value)" for "value"
    using that by (simp add: parse_cookie_value_eq Let_def)
  then have A: "\<forall>value. CHR ''='' \<in> set (?seg value) \<longrightarrow>
          parse_cookie_value value = Inr [(?name value, ?val value, ?declared value)]"
    by blast
  from update_lookup[of store headers request_domain] obtain store' where
    u: "update_cookies_from_response store headers request_domain = Inr store'"
    and look: "\<forall>D n. map_of (case map_of store' D of None \<Rightarrow> [] | Some cm \<Rightarrow> cm) n =
          (case find (\<lambda>(n', v', d'). ?storage d' = D \<and> n' = n) (rev ?parsed) of
             None \<Rightarrow> map_of (case map_of store D of None \<Rightarrow> [] | Some cm \<Rightarrow> cm) n
           | Some (n', v', d') \<Rightarrow> Some v')"
    unfolding rc by blast
  have each: "\<forall>(hname, values)\<in>set headers. py_lower hname = ''set-cookie'' \<longrightarrow>
                (\<forall>value\<in>set values. CHR ''='' \<in> set (?seg value) \<longrightarrow>
                   (\<exists>cm v'. map_of store' (?storage (?declared value)) = Some cm
                        \<and> map_of cm (?name value) = Some v'))"
  proof (intro ballI, clarify)
    fix hname vals raw
    assume h: "(hname, vals) \<in> set headers" "py_lower hname = ''set-cookie''"
      "raw \<in> set vals" "CHR ''='' \<in> set (?seg raw)"
    from p[OF h(4)] have pr: "parse_cookie_value raw = Inr [(?name raw, ?val raw, ?declared raw)]" .
    have "(?name raw, ?val raw, ?declared raw) \<in> set (response_cookies headers)"
      using h(1,2,3) pr by (rule response_cookies_member) simp
    from stored_after_update[OF u this]
    show "\<exists>cm v'. map_of store' (?storage (?declared raw)) = Some cm
                        \<and> map_of cm (?name raw) = Some v'"
      by blast
  qed
  from u look each have B: "\<exists>store'. update_cookies_from_response store headers request_domain = Inr store'
          \<and> (\<forall>D n. map_of (case map_of store' D of None \<Rightarrow> [] | Some cm \<Rightarrow> cm) n =
                (case find (\<lambda>(n', v', d'). ?storage d' = D \<and> n' = n) (rev ?parsed) of
                   None \<Rightarrow> map_of (case map_of store D of None \<Rightarrow> [] | Some cm \<Rightarrow> cm) n
                 | Some (n', v', d') \<Rightarrow> Some v'))
          \<and> (\<forall>(hname, values)\<in>set headers. py_lower hname = ''set-cookie'' \<longrightarrow>
                (\<forall>value\<in>set values. CHR ''='' \<in> set (?seg value) \<longrightarrow>
                   (\<exists>cm v'. map_of store' (?storage (?declared value)) = Some cm
                        \<and> map_of cm (?name value) = Some v')))"
    by (intro exI[of _ store'] conjI)
  have C: "\<forall>hname value. py_lower hname = ''set-cookie'' \<and> CHR ''='' \<in> set (?seg value) \<longrightarrow>
          update_cookies_from_response store [(hname, [value])] request_domain =
            Inr (dict_set (?storage (?declared value))
                   (dict_set (?name value) (?val value)
                      (case map_of store (?storage (?declared value)) of
                         None \<Rightarrow> [] | Some cm \<Rightarrow> cm))
                   store)"
  proof (intro allI impI, elim conjE)
    fix hname raw
    assume "py_lower hname = ''set-cookie''" and "CHR ''='' \<in> set (?seg raw)"
    from this(1) p[OF this(2)]
    show "update_cookies_from_response store [(hname, [raw])] request_domain =
            Inr (dict_set (?storage (?declared raw))
                   (dict_set (?name raw) (?val raw)
                      (case map_of store (?storage (?declared raw)) of
                         None \<Rightarrow> [] | Some cm \<Rightarrow> cm))
                   store)"
      by (rule update_single)
  qed
  have h: "py_lower ''Set-Cookie'' = ''set-cookie''" by code_simp
  have e: "parse_cookie_value ''sid=abc123; Domain=.example.com; Path=/; HttpOnly'' =
      Inr [(''sid'', ''abc123'', ''example.com'')]"
    by code_simp
  have lo: "py_lower ''example.com'' = ''example.com''" by code_simp
  have "update_cookies_from_response store
                      [(''Set-Cookie'', [''sid=abc123; Domain=.example.com; Path=/; HttpOnly''])]
                      ''shop.example.com'' =
       Inr (dict_set ''example.com''
              (dict_set ''sid'' ''abc123''
                 (case map_of store ''example.com'' of None \<Rightarrow> [] | Some cm \<Rightarrow> cm)) store)"
    using update_single[OF h e, of store "''shop.example.com''"] by simp
  then have E: "\<exists>store'. update_cookies_from_response store
                      [(''Set-Cookie'', [''sid=abc123; Domain=.example.com; Path=/; HttpOnly''])]
                      ''shop.example.com'' = Inr store'
             \<and> map_of (get_cookies_for_domain store' ''example.com'') ''sid'' = Some ''abc123''"
    by (simp add: get_cookies_for_domain_def lo map_of_dict_set_apply)
  show ?thesis unfolding Let_def
    by (rule conjI[OF A conjI[OF B conjI[OF C E]]])
qed

theorem set_cookie_stored_witness:
  "update_cookies_from_response []
     [(''Content-Type'', [''text/html'']),
      (''SET-COOKIE'', [''garbage-no-equals'', ''tok = z=zz ; Path=/'']),
      (''set-cookie'', [''sid=abc123; Domain=.Example.com''])]
     ''api.example.com''
   = Inr [(''api.example.com'', [(''tok'', ''z=zz'')]), (''example.com'', [(''sid'', ''abc123'')])]
   \<and> (\<exists>cm v'. map_of [(''api.example.com'', [(''tok'', ''z=zz'')]),
                       (''example.com'', [(''sid'', ''abc123'')])] ''example.com'' = Some cm
          \<and> map_of cm ''sid'' = Some v')"
proof -
  let ?H = "[(''Content-Type'', [''text/html'']),
      (''SET-COOKIE'', [''garbage-no-equals'', ''tok = z=zz ; Path=/'']),
      (''set-cookie'', [''sid=abc123; Domain=.Example.com''])]"
  let ?V = "''sid=abc123; Domain=.Example.com''"
  let ?X = "[(''api.example.com'', [(''tok'', ''z=zz'')]), (''example.com'', [(''sid'', ''abc123'')])]"
  have u: "update_cookies_from_response [] ?H ''api.example.com'' = Inr ?X" by code_simp
  note t = set_cookie_stored[where headers = ?H and request_domain = "''api.example.com''"
      and store = "[]", unfolded Let_def, THEN conjunct2, THEN conjunct1]
  from t obtain store' where u': "update_cookies_from_response [] ?H ''api.example.com'' = Inr store'"
    and each: "\<forall>(hname, values)\<in>set ?H. py_lower hname = ''set-cookie'' \<longrightarrow>
       (\<forall>value\<in>set values. CHR ''='' \<in> set (takeWhile (\<lambda>c. c \<noteq> CHR '';'') value) \<longrightarrow>
          (\<exists>cm v'. map_of store'
               (if (case domain_attribute value of None \<Rightarrow> []
                    | Some a \<Rightarrow> if py_startswith (py_lower a) ''.'' then drop 1 (py_lower a)
                               else py_lower a) \<noteq> []
                then (case domain_attribute value of None \<Rightarrow> []
                    | Some a \<Rightarrow> if py_startswith (py_lower a) ''.'' then drop 1 (py_lower a)
                               else py_lower a)
                else ''api.example.com'') = Some cm
             \<and> map_of cm (py_strip (takeWhile (\<lambda>c. c \<noteq> CHR ''='')
                               (takeWhile (\<lambda>c. c \<noteq> CHR '';'') value))) = Some v'))"
    by (elim exE conjE)
  from u u' have s: "store' = ?X" by simp
  have mem: "(''set-cookie'', [?V]) \<in> set ?H" by simp
  have l: "py_lower ''set-cookie'' = ''set-cookie''" by code_simp
  have q: "CHR ''='' \<in> set (takeWhile (\<lambda>c. c \<noteq> CHR '';'') ?V)" by simp
  have d: "(case domain_attribute ?V of None \<Rightarrow> []
                    | Some a \<Rightarrow> if py_startswith (py_lower a) ''.'' then drop 1 (py_lower a)
                               else py_lower a) = ''example.com''"
    by code_simp
  have n: "py_strip (takeWhile (\<lambda>c. c \<noteq> CHR ''='') (takeWhile (\<lambda>c. c \<noteq> CHR '';'') ?V)) = ''sid''"
    by code_simp
  have vm: "?V \<in> set [?V]" by simp
  note a1 = bspec[OF each mem, unfolded prod.case, THEN mp, OF l]
  note a2 = bspec[OF a1 vm, THEN mp, OF q]
  from a2
  have "\<exists>cm v'. map_of ?X ''example.com'' = Some cm \<and> map_of cm ''sid'' = Some v'"
    unfolding d n s by simp
  with u show ?thesis by (intro conjI)
qed

text \<open>
  Claim C5. Ingestion never raises: for all response headers it returns a store, and
  the parser returns a list for every list of strings. When no value of a
  \<open>Set-Cookie\<close> header has \<open>=\<close> in its first \<open>;\<close>-delimited segment, as for
  \<open>garbage-no-equals\<close>, the store returned is the store given.
\<close>

theorem ingestion_total:
  "(\<exists>cs. parse_set_cookie values = Inr cs)
   \<and> (\<exists>store'. update_cookies_from_response store headers request_domain = Inr store')
   \<and> ((\<forall>(name, values)\<in>set headers. py_lower name = ''set-cookie'' \<longrightarrow>
          (\<forall>value\<in>set values. CHR ''='' \<notin> set (takeWhile (\<lambda>c. c \<noteq> CHR '';'') value)))
       \<longrightarrow> update_cookies_from_response store headers request_domain = Inr store)"
  using parse_set_cookie_total[of "values"] update_cookies_total[of store headers request_domain]
    update_cookies_skip[of headers store request_domain]
  by blast

theorem ingestion_total_witness:
  "update_cookies_from_response [(''example.com'', [(''a'', ''1'')])]
     [(''Set-Cookie'', [''garbage-no-equals''])] ''example.com''
   = Inr [(''example.com'', [(''a'', ''1'')])]"
proof -
  have h: "\<forall>(name, values)\<in>set [(''Set-Cookie'', [''garbage-no-equals''])].
       py_lower name = ''set-cookie'' \<longrightarrow>
          (\<forall>value\<in>set values. CHR ''='' \<notin> set (takeWhile (\<lambda>c. c \<noteq> CHR '';'') value))"
    by simp
  from ingestion_total[of "[]" "[(''example.com'', [(''a'', ''1'')])]"
      "[(''Set-Cookie'', [''garbage-no-equals''])]" "''example.com''"] h
  show ?thesis by blast
qed

text \<open>
  Claim C10. Ingestion does not compare a declared domain with the request domain. For
  every list of response headers and every request domain \<open>R\<close>, each value of a
  \<open>Set-Cookie\<close> header that parses to a cookie with a declared domain \<open>D\<close> that is not
  empty has its name stored under \<open>D\<close>, with the value of the last cookie of the response
  for that name and domain; nothing relates \<open>D\<close> to \<open>R\<close>. When every cookie of the
  response declares a domain, the store that results is the same for every request
  domain. So a response can add an entry for an unrelated domain.
\<close>

theorem declared_domain_unchecked:
  "let parsed = concat (map (\<lambda>(hname, values).
                  if py_lower hname = ''set-cookie''
                  then concat (map (\<lambda>value. case parse_cookie_value value of
                                              Inl e \<Rightarrow> [] | Inr l \<Rightarrow> l) values)
                  else []) headers)
   in (\<exists>store'. update_cookies_from_response store headers R = Inr store'
         \<and> (\<forall>(hname, values)\<in>set headers. py_lower hname = ''set-cookie'' \<longrightarrow>
               (\<forall>value\<in>set values. \<forall>n v D.
                   parse_cookie_value value = Inr [(n, v, D)] \<and> D \<noteq> [] \<longrightarrow>
                   (\<exists>cm v'. map_of store' D = Some cm \<and> map_of cm n = Some v'
                      \<and> map_option (\<lambda>(n', v', d'). v')
                           (find (\<lambda>(n', v', d'). (if d' \<noteq> [] then d' else R) = D \<and> n' = n)
                              (rev parsed)) = Some v'))))
    \<and> ((\<forall>(n, v, d)\<in>set parsed. d \<noteq> []) \<longrightarrow>
          update_cookies_from_response store headers R
            = update_cookies_from_response store headers R')
    \<and> (\<forall>hname value n v D.
          parse_cookie_value value = Inr [(n, v, D)] \<and> D \<noteq> []
            \<and> py_lower hname = ''set-cookie'' \<longrightarrow>
          update_cookies_from_response store [(hname, [value])] R =
            Inr (dict_set D
                   (dict_set n v (case map_of store D of None \<Rightarrow> [] | Some cm \<Rightarrow> cm))
                   store))"
proof -
  let ?parsed = "concat (map (\<lambda>(hname, values).
                  if py_lower hname = ''set-cookie''
                  then concat (map (\<lambda>value. case parse_cookie_value value of
                                              Inl e \<Rightarrow> [] | Inr l \<Rightarrow> l) values)
                  else []) headers)"
  have rc: "response_cookies headers = ?parsed" by (rule response_cookies_concat)
  obtain store' where u: "update_cookies_from_response store headers R = Inr store'"
    using update_cookies_total by blast
  have each: "\<forall>(hname, values)\<in>set headers. py_lower hname = ''set-cookie'' \<longrightarrow>
               (\<forall>value\<in>set values. \<forall>n v D.
                   parse_cookie_value value = Inr [(n, v, D)] \<and> D \<noteq> [] \<longrightarrow>
                   (\<exists>cm v'. map_of store' D = Some cm \<and> map_of cm n = Some v'
                      \<and> map_option (\<lambda>(n', v', d'). v')
                           (find (\<lambda>(n', v', d'). (if d' \<noteq> [] then d' else R) = D \<and> n' = n)
                              (rev ?parsed)) = Some v'))"
  proof (intro ballI, clarify)
    fix hname vals raw n v D
    assume h: "(hname, vals) \<in> set headers" "py_lower hname = ''set-cookie''"
      "raw \<in> set vals" "parse_cookie_value raw = Inr [(n, v, D)]" and D: "D \<noteq> []"
    have "(n, v, D) \<in> set (response_cookies headers)"
      using h by (rule response_cookies_member) simp
    from stored_after_update[OF u this] D
    show "\<exists>cm v'. map_of store' D = Some cm \<and> map_of cm n = Some v'
                      \<and> map_option (\<lambda>(n', v', d'). v')
                           (find (\<lambda>(n', v', d'). (if d' \<noteq> [] then d' else R) = D \<and> n' = n)
                              (rev ?parsed)) = Some v'"
      unfolding rc by simp
  qed
  from u each have A: "\<exists>store'. update_cookies_from_response store headers R = Inr store'
         \<and> (\<forall>(hname, values)\<in>set headers. py_lower hname = ''set-cookie'' \<longrightarrow>
               (\<forall>value\<in>set values. \<forall>n v D.
                   parse_cookie_value value = Inr [(n, v, D)] \<and> D \<noteq> [] \<longrightarrow>
                   (\<exists>cm v'. map_of store' D = Some cm \<and> map_of cm n = Some v'
                      \<and> map_option (\<lambda>(n', v', d'). v')
                           (find (\<lambda>(n', v', d'). (if d' \<noteq> [] then d' else R) = D \<and> n' = n)
                              (rev ?parsed)) = Some v')))"
    by (intro exI[of _ store'] conjI)
  have B: "(\<forall>(n, v, d)\<in>set ?parsed. d \<noteq> []) \<longrightarrow>
          update_cookies_from_response store headers R
            = update_cookies_from_response store headers R'"
  proof
    assume "\<forall>(n, v, d)\<in>set ?parsed. d \<noteq> []"
    then have "\<forall>(n, v, d)\<in>set (response_cookies headers). d \<noteq> []" unfolding rc .
    then show "update_cookies_from_response store headers R
            = update_cookies_from_response store headers R'"
      unfolding update_cookies_response_cookies by (rule store_parsed_indep)
  qed
  have C: "\<forall>hname value n v D.
          parse_cookie_value value = Inr [(n, v, D)] \<and> D \<noteq> []
            \<and> py_lower hname = ''set-cookie'' \<longrightarrow>
          update_cookies_from_response store [(hname, [value])] R =
            Inr (dict_set D
                   (dict_set n v (case map_of store D of None \<Rightarrow> [] | Some cm \<Rightarrow> cm))
                   store)"
  proof (intro allI impI, elim conjE)
    fix hname raw n v D
    assume p: "parse_cookie_value raw = Inr [(n, v, D)]" and D: "D \<noteq> []"
      and h: "py_lower hname = ''set-cookie''"
    from update_single[OF h p, of store R] D
    show "update_cookies_from_response store [(hname, [raw])] R =
            Inr (dict_set D
                   (dict_set n v (case map_of store D of None \<Rightarrow> [] | Some cm \<Rightarrow> cm))
                   store)"
      by simp
  qed
  show ?thesis unfolding Let_def by (rule conjI[OF A conjI[OF B C]])
qed

theorem declared_domain_unchecked_witness:
  "\<not> domain_matches ''evil.org'' ''shop.example.com''
   \<and> update_cookies_from_response []
       [(''Content-Type'', [''text/html'']), (''Set-Cookie'', [''a=1'']),
        (''set-cookie'', [''sid=1; Domain=evil.org''])] ''shop.example.com''
     = Inr [(''shop.example.com'', [(''a'', ''1'')]), (''evil.org'', [(''sid'', ''1'')])]
   \<and> (\<exists>cm v'. map_of [(''shop.example.com'', [(''a'', ''1'')]), (''evil.org'', [(''sid'', ''1'')])]
                  ''evil.org'' = Some cm \<and> map_of cm ''sid'' = Some v')"
proof -
  let ?H = "[(''Content-Type'', [''text/html'']), (''Set-Cookie'', [''a=1'']),
        (''set-cookie'', [''sid=1; Domain=evil.org''])]"
  let ?X = "[(''shop.example.com'', [(''a'', ''1'')]), (''evil.org'', [(''sid'', ''1'')])]"
  have m: "\<not> domain_matches ''evil.org'' ''shop.example.com''" by code_simp
  have u: "update_cookies_from_response [] ?H ''shop.example.com'' = Inr ?X" by code_simp
  have p: "parse_cookie_value ''sid=1; Domain=evil.org'' = Inr [(''sid'', ''1'', ''evil.org'')]"
    by code_simp
  have l: "py_lower ''set-cookie'' = ''set-cookie''" by code_simp
  have mem: "(''set-cookie'', [''sid=1; Domain=evil.org'']) \<in> set ?H" by simp
  note t = declared_domain_unchecked[where headers = ?H and R = "''shop.example.com''"
      and store = "[]", unfolded Let_def, THEN conjunct1]
  from t obtain store' where u': "update_cookies_from_response [] ?H ''shop.example.com'' = Inr store'"
    and each: "\<forall>(hname, values)\<in>set ?H. py_lower hname = ''set-cookie'' \<longrightarrow>
               (\<forall>value\<in>set values. \<forall>n v D.
                   parse_cookie_value value = Inr [(n, v, D)] \<and> D \<noteq> [] \<longrightarrow>
                   (\<exists>cm v'. map_of store' D = Some cm \<and> map_of cm n = Some v'))"
    by (elim exE conjE) blast
  from u u' have s: "store' = ?X" by simp
  from bspec[OF each mem] l p
  have "\<exists>cm v'. map_of store' ''evil.org'' = Some cm \<and> map_of cm ''sid'' = Some v'"
    by simp
  with m u s show ?thesis by simp
qed

section \<open>The keys of the store\<close>

text \<open>
  Claim C6, as stated, fails: the parser removes one leading dot from a declared
  domain, so \<open>Domain=..example.com\<close> is stored under the key \<open>.example.com\<close>.
\<close>

theorem store_keys_counterexample:
  "keys_lowered [] \<and> keys_undotted []
   \<and> py_lower ''shop.example.com'' = ''shop.example.com''
   \<and> \<not> py_startswith ''shop.example.com'' ''.''
   \<and> update_cookies_from_response [] [(''Set-Cookie'', [''a=b; Domain=..example.com''])]
         ''shop.example.com'' = Inr [(''.example.com'', [(''a'', ''b'')])]
   \<and> \<not> keys_undotted [(''.example.com'', [(''a'', ''b'')])]"
  by code_simp

text \<open>
  Claim C6, amended. Every key of the store is lower-cased, and both writes keep it so:
  the cookies of a request go under the lower-cased domain of its URL, and ingestion
  for a lower-cased request domain adds lower-cased keys only. The keys have no leading
  dot after a write when they had none before, the request domain has none, and no
  \<open>Set-Cookie\<close> value declares a domain that, trimmed, starts with two dots.
\<close>

theorem store_keys_preserved:
  assumes "keys_lowered store"
  shows "(\<exists>store'. keep_request_cookies store cookies (extract_domain netloc) = Inr store'
            \<and> keys_lowered store'
            \<and> (keys_undotted store \<and> \<not> py_startswith (extract_domain netloc) ''.''
                 \<longrightarrow> keys_undotted store'))
       \<and> (py_lower request_domain = request_domain \<longrightarrow>
            (\<exists>store'. update_cookies_from_response store headers request_domain = Inr store'
               \<and> keys_lowered store'
               \<and> (keys_undotted store \<and> \<not> py_startswith request_domain ''.''
                    \<and> (\<forall>(name, values)\<in>set headers. py_lower name = ''set-cookie'' \<longrightarrow>
                         (\<forall>value\<in>set values. \<forall>a. domain_attribute value = Some a
                             \<longrightarrow> \<not> py_startswith a ''..''))
                   \<longrightarrow> keys_undotted store')))"
proof -
  obtain s1 where s1: "keep_request_cookies store cookies (extract_domain netloc) = Inr s1"
    by (simp add: keep_request_cookies_eq)
  have lo: "py_lower (extract_domain netloc) = extract_domain netloc"
    by (simp add: extract_domain_def py_lower_idem)
  have k1: "keys_lowered s1"
    unfolding keys_lowered_def
    using assms[unfolded keys_lowered_def] lo s1
    by (rule keep_keys[where P = "\<lambda>d. py_lower d = d"])
  have k2: "keys_undotted s1"
    if "keys_undotted store" and "\<not> py_startswith (extract_domain netloc) ''.''"
    unfolding keys_undotted_def
    using that(1)[unfolded keys_undotted_def] that(2) s1
    by (rule keep_keys[where P = "\<lambda>d. \<not> py_startswith d ''.''"])
  have keep: "\<exists>store'. keep_request_cookies store cookies (extract_domain netloc) = Inr store'
            \<and> keys_lowered store'
            \<and> (keys_undotted store \<and> \<not> py_startswith (extract_domain netloc) ''.''
                 \<longrightarrow> keys_undotted store')"
    using s1 k1 k2 by blast
  obtain s2 where s2: "update_cookies_from_response store headers request_domain = Inr s2"
    using update_cookies_total by blast
  have u1: "keys_lowered s2" if rd: "py_lower request_domain = request_domain"
  proof -
    have "\<forall>(n, v, d)\<in>set (response_cookies headers).
        py_lower (if d \<noteq> [] then d else request_domain) = (if d \<noteq> [] then d else request_domain)"
      using rd by (intro response_cookies_keys[where P = "\<lambda>d. py_lower d = d"])
        (auto dest: parsed_domain_lower)
    with assms[unfolded keys_lowered_def] show ?thesis
      unfolding keys_lowered_def using s2
      by (rule update_keys[where P = "\<lambda>d. py_lower d = d"])
  qed
  have u2: "keys_undotted s2"
    if "keys_undotted store" and rd: "\<not> py_startswith request_domain ''.''"
      and att: "\<forall>(name, values)\<in>set headers. py_lower name = ''set-cookie'' \<longrightarrow>
                         (\<forall>value\<in>set values. \<forall>a. domain_attribute value = Some a
                             \<longrightarrow> \<not> py_startswith a ''..'')"
  proof -
    have "\<forall>(n, v, d)\<in>set (response_cookies headers).
        \<not> py_startswith (if d \<noteq> [] then d else request_domain) ''.''"
    proof (rule response_cookies_keys[where P = "\<lambda>d. \<not> py_startswith d ''.''"])
      fix raw cs n v d
      assume p: "parse_cookie_value raw = Inr cs" and m: "(n, v, d) \<in> set cs"
        and "\<exists>(name, vals)\<in>set headers. py_lower name = ''set-cookie'' \<and> raw \<in> set vals"
      with att have "\<forall>a. domain_attribute raw = Some a \<longrightarrow> \<not> py_startswith a ''..''"
        by blast
      with p m show "\<not> py_startswith d ''.''" by (rule parsed_domain_undotted)
    next
      from rd show "\<not> py_startswith request_domain ''.''" .
    qed
    with that(1)[unfolded keys_undotted_def] show ?thesis
      unfolding keys_undotted_def using s2
      by (rule update_keys[where P = "\<lambda>d. \<not> py_startswith d ''.''"])
  qed
  from s2 u1 u2 keep show ?thesis by blast
qed

theorem store_keys_preserved_witness:
  "keys_lowered [(''example.com'', [(''a'', ''1'')])]
   \<and> keys_undotted [(''example.com'', [(''a'', ''1'')])]
   \<and> (\<exists>store'. keep_request_cookies [(''example.com'', [(''a'', ''1'')])]
                    (Some [(''b'', ''2'')]) (extract_domain ''Shop.Example.com'') = Inr store'
         \<and> keys_lowered store' \<and> keys_undotted store')
   \<and> (\<exists>store'. update_cookies_from_response [(''example.com'', [(''a'', ''1'')])]
                    [(''Set-Cookie'', [''sid=1; Domain=.Example.com''])] ''shop.example.com''
                  = Inr store'
         \<and> keys_lowered store' \<and> keys_undotted store')"
proof -
  have h1: "keys_lowered [(''example.com'', [(''a'', ''1'')])]" by code_simp
  have h2: "keys_undotted [(''example.com'', [(''a'', ''1'')])]" by code_simp
  have h3: "\<not> py_startswith (extract_domain ''Shop.Example.com'') ''.''" by code_simp
  have h4: "py_lower ''shop.example.com'' = ''shop.example.com''" by code_simp
  have h5: "\<not> py_startswith ''shop.example.com'' ''.''" by code_simp
  have a: "domain_attribute ''sid=1; Domain=.Example.com'' = Some ''.Example.com''"
    by code_simp
  have b: "\<not> py_startswith ''.Example.com'' ''..''" by code_simp
  have h6: "\<forall>(name, values)\<in>set [(''Set-Cookie'', [''sid=1; Domain=.Example.com''])].
       py_lower name = ''set-cookie'' \<longrightarrow>
         (\<forall>value\<in>set values. \<forall>a. domain_attribute value = Some a
             \<longrightarrow> \<not> py_startswith a ''..'')"
    using a b by simp
  from store_keys_preserved[OF h1, of "Some [(''b'', ''2'')]" "''Shop.Example.com''"
      "''shop.example.com''" "[(''Set-Cookie'', [''sid=1; Domain=.Example.com''])]"]
    h1 h2 h3 h4 h5 h6
  show ?thesis by blast
qed

section \<open>One-off cookies on later requests\<close>

text \<open>
  Claim C7, as stated, fails in its second half. A first response stores \<open>z\<close> for
  \<open>a.example.com\<close> and then \<open>init\<close> for \<open>example.com\<close>; the next request to
  \<open>a.example.com\<close> carries the one-off cookie \<open>init=hello\<close>, which the store keeps under
  \<open>a.example.com\<close>, and its response sets nothing. A request to \<open>a.example.com\<close> after
  that, with no cookies of its own, sends \<open>z=1; init=other\<close>: the parent domain comes
  later in the store and overrides the entry of the request domain.
\<close>

theorem one_off_cookies_overridden:
  "request (fixed_transport [(''Set-Cookie'', [''z=1'', ''init=other; Domain=example.com''])] [])
     \<lparr>client_session_id = Some ''s'', client_cookies = []\<rparr>
     ''a.example.com'' HeadersNone None NoBody
   = (\<lparr>client_session_id = Some ''s'',
       client_cookies = [(''a.example.com'', [(''z'', ''1'')]),
                         (''example.com'', [(''init'', ''other'')])]\<rparr>,
      Inr ([(''Set-Cookie'', [''z=1'', ''init=other; Domain=example.com''])], []))
   \<and> request (fixed_transport [] [])
     \<lparr>client_session_id = Some ''s'',
       client_cookies = [(''a.example.com'', [(''z'', ''1'')]),
                         (''example.com'', [(''init'', ''other'')])]\<rparr>
     ''a.example.com'' HeadersNone (Some [(''init'', ''hello'')]) NoBody
   = (\<lparr>client_session_id = Some ''s'',
       client_cookies = [(''a.example.com'', [(''z'', ''1''), (''init'', ''hello'')]),
                         (''example.com'', [(''init'', ''other'')])]\<rparr>,
      Inr ([], []))
   \<and> get_cookies_for_domain [(''a.example.com'', [(''z'', ''1''), (''init'', ''hello'')]),
                         (''example.com'', [(''init'', ''other'')])] ''a.example.com''
       = [(''z'', ''1''), (''init'', ''hello'')]
   \<and> payload_headers [(''a.example.com'', [(''z'', ''1''), (''init'', ''hello'')]),
                         (''example.com'', [(''init'', ''other'')])]
        ''a.example.com'' HeadersNone None NoBody = [(''cookie'', ''z=1; init=other'')]"
  by code_simp

text \<open>
  Claim C7, amended. After a request with one-off cookies to a URL of domain \<open>D\<close>, with
  the session established, the store's entry for \<open>D\<close> holds every pair of the one-off
  cookies whose name the response does not set for \<open>D\<close>; this holds when the call
  returns, when the transport fails, and when the call raises after the response
  cookies were taken in. A later request to \<open>D\<close> without cookies hands to the transport a header list
  whose \<open>cookie\<close> entry holds each pair of the entry for \<open>D\<close> whose name no matching
  domain later in the store's order holds.
\<close>

theorem one_off_cookies_kept:
  assumes "session_established c"
    and "wf_store (client_cookies c)"
    and "ck \<noteq> []" and "wf_dict ck"
    and "request send c netloc headers (Some ck) body = (c', result)"
  shows "wf_store (client_cookies c')
     \<and> (\<forall>n v. map_of ck n = Some v
           \<and> (\<forall>s1 resp body_hex.
                 keep_request_cookies (client_cookies c) (Some ck) (extract_domain netloc)
                   = Inr s1
                 \<and> send (payload_headers s1 (extract_domain netloc) headers (Some ck) body)
                     = Some (resp, body_hex)
                 \<longrightarrow> (\<forall>(n', v', d')\<in>set (response_cookies resp).
                        (if d' \<noteq> [] then d' else extract_domain netloc) = extract_domain netloc
                          \<longrightarrow> n' \<noteq> n))
           \<longrightarrow> map_of (get_cookies_for_domain (client_cookies c') (extract_domain netloc)) n
                 = Some v)
     \<and> (\<forall>n v pre cm post.
           client_cookies c' = pre @ (extract_domain netloc, cm) # post
           \<and> map_of cm n = Some v
           \<and> (\<forall>(d, cm')\<in>set post.
                 (d = extract_domain netloc \<or> domain_matches d (extract_domain netloc))
                   \<longrightarrow> map_of cm' n = None)
           \<longrightarrow> (n, v) \<in> set (merged_cookies (client_cookies c') None (extract_domain netloc))
               \<and> (''cookie'',
                    cookie_str (merged_cookies (client_cookies c') None (extract_domain netloc)))
                   \<in> set (payload_headers (client_cookies c') (extract_domain netloc)
                            headers2 None body2)
               \<and> (\<exists>a b. cookie_str
                            (merged_cookies (client_cookies c') None (extract_domain netloc))
                          = a @ (n @ ''='' @ v) @ b))
     \<and> request send2 c' netloc headers2 None body2 =
         request (\<lambda>h. send2 (payload_headers (client_cookies c') (extract_domain netloc)
                                headers2 None body2))
           c' netloc headers2 None body2"
proof -
  have wf': "wf_store (client_cookies c')"
    using assms(2,5) by (rule wf_after_request)
  have one: "\<forall>n v. map_of ck n = Some v
           \<and> (\<forall>s1 resp body_hex.
                 keep_request_cookies (client_cookies c) (Some ck) (extract_domain netloc)
                   = Inr s1
                 \<and> send (payload_headers s1 (extract_domain netloc) headers (Some ck) body)
                     = Some (resp, body_hex)
                 \<longrightarrow> (\<forall>(n', v', d')\<in>set (response_cookies resp).
                        (if d' \<noteq> [] then d' else extract_domain netloc) = extract_domain netloc
                          \<longrightarrow> n' \<noteq> n))
           \<longrightarrow> map_of (get_cookies_for_domain (client_cookies c') (extract_domain netloc)) n
                 = Some v"
  proof (intro allI impI, elim conjE)
    fix n v
    assume "map_of ck n = Some v"
      and "\<forall>s1 resp body_hex.
                 keep_request_cookies (client_cookies c) (Some ck) (extract_domain netloc)
                   = Inr s1
                 \<and> send (payload_headers s1 (extract_domain netloc) headers (Some ck) body)
                     = Some (resp, body_hex)
                 \<longrightarrow> (\<forall>(n', v', d')\<in>set (response_cookies resp).
                        (if d' \<noteq> [] then d' else extract_domain netloc) = extract_domain netloc
                          \<longrightarrow> n' \<noteq> n)"
    with assms show "map_of (get_cookies_for_domain (client_cookies c') (extract_domain netloc)) n
                 = Some v"
      by (rule one_off_after_request)
  qed
  have two: "\<forall>n v pre cm post.
           client_cookies c' = pre @ (extract_domain netloc, cm) # post
           \<and> map_of cm n = Some v
           \<and> (\<forall>(d, cm')\<in>set post.
                 (d = extract_domain netloc \<or> domain_matches d (extract_domain netloc))
                   \<longrightarrow> map_of cm' n = None)
           \<longrightarrow> (n, v) \<in> set (merged_cookies (client_cookies c') None (extract_domain netloc))
               \<and> (''cookie'',
                    cookie_str (merged_cookies (client_cookies c') None (extract_domain netloc)))
                   \<in> set (payload_headers (client_cookies c') (extract_domain netloc)
                            headers2 None body2)
               \<and> (\<exists>a b. cookie_str
                            (merged_cookies (client_cookies c') None (extract_domain netloc))
                          = a @ (n @ ''='' @ v) @ b)"
  proof (intro allI impI, elim conjE)
    fix n v pre cm post
    assume "client_cookies c' = pre @ (extract_domain netloc, cm) # post"
      and "map_of cm n = Some v"
      and "\<forall>(d, cm')\<in>set post.
                 (d = extract_domain netloc \<or> domain_matches d (extract_domain netloc))
                   \<longrightarrow> map_of cm' n = None"
    with wf' show "(n, v) \<in> set (merged_cookies (client_cookies c') None (extract_domain netloc))
               \<and> (''cookie'',
                    cookie_str (merged_cookies (client_cookies c') None (extract_domain netloc)))
                   \<in> set (payload_headers (client_cookies c') (extract_domain netloc)
                            headers2 None body2)
               \<and> (\<exists>a b. cookie_str
                            (merged_cookies (client_cookies c') None (extract_domain netloc))
                          = a @ (n @ ''='' @ v) @ b)"
      by (rule later_request_cookie)
  qed
  have three: "request send2 c' netloc headers2 None body2 =
         request (\<lambda>h. send2 (payload_headers (client_cookies c') (extract_domain netloc)
                                headers2 None body2))
           c' netloc headers2 None body2"
    by (rule request_no_cookies)
  from wf' one two three show ?thesis by (intro conjI)
qed

theorem one_off_cookies_kept_witness:
  "request (fixed_transport [(''Set-Cookie'', [''other=1''])] ''zz'')
      \<lparr>client_session_id = Some ''s'', client_cookies = []\<rparr>
      ''A.example.com'' HeadersNone (Some [(''init'', ''hello'')]) NoBody
    = (\<lparr>client_session_id = Some ''s'',
         client_cookies = [(''a.example.com'', [(''init'', ''hello''), (''other'', ''1'')])]\<rparr>,
       Inl RequestError)
   \<and> map_of (get_cookies_for_domain
               [(''a.example.com'', [(''init'', ''hello''), (''other'', ''1'')])]
               ''a.example.com'') ''init'' = Some ''hello''
   \<and> (''cookie'', ''init=hello; other=1'')
        \<in> set (payload_headers [(''a.example.com'', [(''init'', ''hello''), (''other'', ''1'')])]
                 ''a.example.com'' (HeadersList [(''Accept'', ''*/*'')]) None NoBody)"
proof -
  let ?c = "\<lparr>client_session_id = Some ''s'', client_cookies = []\<rparr>"
  let ?s = "[(''a.example.com'', [(''init'', ''hello''), (''other'', ''1'')])]"
  let ?c' = "\<lparr>client_session_id = Some ''s'', client_cookies = ?s\<rparr>"
  let ?send = "fixed_transport [(''Set-Cookie'', [''other=1''])] ''zz''"
  have h1: "session_established ?c" by simp
  have h2: "wf_store (client_cookies ?c)" by (simp add: wf_store_def wf_dict_def)
  have h3: "[(''init'', ''hello'')] \<noteq> []" by simp
  have h4: "wf_dict [(''init'', ''hello'')]" by (simp add: wf_dict_def)
  have h5: "request ?send ?c ''A.example.com'' HeadersNone
              (Some [(''init'', ''hello'')]) NoBody = (?c', Inl RequestError)"
    by code_simp
  have ed: "extract_domain ''A.example.com'' = ''a.example.com''" by code_simp
  have cs: "client_cookies ?c' = ?s" by simp
  note t = one_off_cookies_kept[OF h1 h2 h3 h4 h5,
      where ?headers2.0 = "HeadersList [(''Accept'', ''*/*'')]" and ?body2.0 = NoBody,
      unfolded ed cs]
  note t1 = t[THEN conjunct2, THEN conjunct1]
  note t2 = t[THEN conjunct2, THEN conjunct2, THEN conjunct1]
  have l: "map_of [(''init'', ''hello'')] ''init'' = Some ''hello''" by simp
  have rc: "response_cookies [(''Set-Cookie'', [''other=1''])] = [(''other'', ''1'', [])]"
    by code_simp
  have r: "\<forall>s1 resp body_hex.
      keep_request_cookies (client_cookies ?c) (Some [(''init'', ''hello'')]) ''a.example.com''
        = Inr s1
      \<and> ?send (payload_headers s1 ''a.example.com'' HeadersNone (Some [(''init'', ''hello'')])
                  NoBody) = Some (resp, body_hex)
      \<longrightarrow> (\<forall>(n', v', d')\<in>set (response_cookies resp).
            (if d' \<noteq> [] then d' else ''a.example.com'') = ''a.example.com''
              \<longrightarrow> n' \<noteq> ''init'')"
    by (auto simp: fixed_transport_def rc simp del: response_cookies.simps)
  from t1 l r
  have a: "map_of (get_cookies_for_domain ?s ''a.example.com'') ''init'' = Some ''hello''"
    by blast
  have d: "?s = [] @ (''a.example.com'', [(''init'', ''hello''), (''other'', ''1'')]) # []"
    by simp
  have l2: "map_of [(''init'', ''hello''), (''other'', ''1'')] ''init'' = Some ''hello''" by simp
  have e: "\<forall>(d, cm')\<in>set ([] :: cookie_store).
      (d = ''a.example.com'' \<or> domain_matches d ''a.example.com'')
        \<longrightarrow> map_of cm' ''init'' = None"
    by simp
  from t2 d l2 e
  have "(''cookie'', cookie_str (merged_cookies ?s None ''a.example.com''))
      \<in> set (payload_headers ?s ''a.example.com'' (HeadersList [(''Accept'', ''*/*'')]) None NoBody)"
    by blast
  moreover have "cookie_str (merged_cookies ?s None ''a.example.com'') = ''init=hello; other=1''"
    by code_simp
  ultimately have b: "(''cookie'', ''init=hello; other=1'')
      \<in> set (payload_headers ?s ''a.example.com'' (HeadersList [(''Accept'', ''*/*'')]) None NoBody)"
    by simp
  from h5 a b show ?thesis by (intro conjI)
qed

section \<open>What the reading operations share with the store\<close>

text \<open>
  Claim C8. When the reference \<open>self._cookies\<close> stands for a store,
  \<open>get_cookies_for_domain(domain)\<close> returns a new dictionary with the cookies stored under
  the lower-cased domain (empty when there are none), and the property \<open>cookies\<close> returns
  a new dictionary of new dictionaries, equal to the store entry by entry. Every reference
  returned is new, so writing any object at one of them leaves the store as it was; and so
  does any change of the heap that leaves the objects alone that existed before the call.
\<close>

theorem store_reads_are_copies:
  assumes "store_of h self_cookies = Some store"
  shows "(\<exists>h' r. h_get_cookies_for_domain h self_cookies domain = Some (h', r)
            \<and> h_read_dict h' r = Some (get_cookies_for_domain store domain)
            \<and> length h \<le> r
            \<and> (\<forall>ob. \<exists>h''. h_write h' r ob = Some h''
                         \<and> store_of h'' self_cookies = Some store))
       \<and> (\<exists>h' r items. h_cookies h self_cookies = Some (h', r)
            \<and> store_of h' r = Some (all_cookies store)
            \<and> h_read_store h' r = Some items
            \<and> length h \<le> r \<and> (\<forall>(d, a)\<in>set items. length h \<le> a)
            \<and> (\<forall>a ob. a = r \<or> a \<in> snd ` set items \<longrightarrow>
                  (\<exists>h''. h_write h' a ob = Some h''
                         \<and> store_of h'' self_cookies = Some store)))
       \<and> (\<forall>h2. (\<forall>a<length h. h_read h2 a = h_read h a)
              \<longrightarrow> store_of h2 self_cookies = Some store)"
proof -
  let ?g = "get_cookies_for_domain store domain"
  let ?hg = "h @ [StrDict [], StrDict ?g]"
  have g1: "h_get_cookies_for_domain h self_cookies domain = Some (?hg, Suc (length h))"
    using assms by (rule h_get_cookies_eq)
  have g2: "h_read_dict ?hg (Suc (length h)) = Some ?g"
    by (simp add: h_read_dict_def h_read_def nth_append)
  have g3: "\<forall>ob. \<exists>h''. h_write ?hg (Suc (length h)) ob = Some h''
                         \<and> store_of h'' self_cookies = Some store"
    using write_new_keeps_store[OF assms, of "Suc (length h)" "[StrDict [], StrDict ?g]"]
    by simp
  have get: "\<exists>h' r. h_get_cookies_for_domain h self_cookies domain = Some (h', r)
            \<and> h_read_dict h' r = Some (get_cookies_for_domain store domain)
            \<and> length h \<le> r
            \<and> (\<forall>ob. \<exists>h''. h_write h' r ob = Some h''
                         \<and> store_of h'' self_cookies = Some store)"
    using g1 g2 g3 by (intro exI[of _ ?hg] exI[of _ "Suc (length h)"]) simp
  from h_cookies_ok[OF assms] obtain ys items where
    c: "h_cookies h self_cookies = Some (h @ ys @ [StoreDict items], length h + length ys)"
    and dr: "deref_items (h @ ys) items = Some store"
    and fr: "\<forall>(d, a)\<in>set items. length h \<le> a"
    by blast
  let ?ha = "h @ ys @ [StoreDict items]"
  let ?r = "length h + length ys"
  have a1: "h_read_store ?ha ?r = Some items"
    by (simp add: h_read_store_def h_read_def nth_append)
  have "\<forall>a<length (h @ ys). h_read ((h @ ys) @ [StoreDict items]) a = h_read (h @ ys) a"
    by (rule agree_append)
  from this dr have "deref_items ((h @ ys) @ [StoreDict items]) items = Some store"
    by (rule deref_items_agree)
  with a1 have a2: "store_of ?ha ?r = Some (all_cookies store)"
    by (simp add: store_of_def all_cookies_id)
  from deref_items_refs[OF dr] have up: "\<forall>(d, a)\<in>set items. a < length (h @ ys)" .
  have a3: "\<exists>h''. h_write ?ha a ob = Some h'' \<and> store_of h'' self_cookies = Some store"
    if "a = ?r \<or> a \<in> snd ` set items" for a ob
  proof -
    from that fr up have "length h \<le> a \<and> a < length (h @ (ys @ [StoreDict items]))"
      by auto
    then show ?thesis using write_new_keeps_store[OF assms, of a "ys @ [StoreDict items]" ob]
      by simp
  qed
  have all: "\<exists>h' r items. h_cookies h self_cookies = Some (h', r)
            \<and> store_of h' r = Some (all_cookies store)
            \<and> h_read_store h' r = Some items
            \<and> length h \<le> r \<and> (\<forall>(d, a)\<in>set items. length h \<le> a)
            \<and> (\<forall>a ob. a = r \<or> a \<in> snd ` set items \<longrightarrow>
                  (\<exists>h''. h_write h' a ob = Some h''
                         \<and> store_of h'' self_cookies = Some store))"
    using c a2 a1 fr a3
    by (intro exI[of _ ?ha] exI[of _ ?r] exI[of _ items]) simp
  have frame: "\<forall>h2. (\<forall>a<length h. h_read h2 a = h_read h a)
              \<longrightarrow> store_of h2 self_cookies = Some store"
    using assms by (auto intro: store_of_agree)
  from get all frame show ?thesis by (intro conjI)
qed

theorem store_reads_are_copies_witness:
  "store_of [StoreDict [(''example.com'', 1)], StrDict [(''a'', ''1'')]] 0
     = Some [(''example.com'', [(''a'', ''1'')])]
   \<and> h_get_cookies_for_domain [StoreDict [(''example.com'', 1)], StrDict [(''a'', ''1'')]] 0
         ''Example.COM''
     = Some ([StoreDict [(''example.com'', 1)], StrDict [(''a'', ''1'')], StrDict [],
              StrDict [(''a'', ''1'')]], 3)
   \<and> store_of [StoreDict [(''example.com'', 1)], StrDict [(''a'', ''1'')], StrDict [],
                StrDict [(''a'', ''changed'')]] 0
     = Some [(''example.com'', [(''a'', ''1'')])]"
proof -
  let ?h = "[StoreDict [(''example.com'', 1)], StrDict [(''a'', ''1'')]]"
  let ?h' = "[StoreDict [(''example.com'', 1)], StrDict [(''a'', ''1'')], StrDict [],
              StrDict [(''a'', ''1'')]]"
  have s: "store_of ?h 0 = Some [(''example.com'', [(''a'', ''1'')])]" by code_simp
  have g: "h_get_cookies_for_domain ?h 0 ''Example.COM'' = Some (?h', 3)" by code_simp
  from store_reads_are_copies[OF s, of "''Example.COM''"]
  obtain h' r where "h_get_cookies_for_domain ?h 0 ''Example.COM'' = Some (h', r)"
    and w: "\<forall>ob. \<exists>h''. h_write h' r ob = Some h''
              \<and> store_of h'' 0 = Some [(''example.com'', [(''a'', ''1'')])]"
    by blast
  with g have "h' = ?h'" "r = 3" by simp_all
  with w obtain h'' where "h_write ?h' 3 (StrDict [(''a'', ''changed'')]) = Some h''"
    and st: "store_of h'' 0 = Some [(''example.com'', [(''a'', ''1'')])]"
    by blast
  moreover have "h_write ?h' 3 (StrDict [(''a'', ''changed'')]) =
      Some [StoreDict [(''example.com'', 1)], StrDict [(''a'', ''1'')], StrDict [],
                StrDict [(''a'', ''changed'')]]"
    by code_simp
  ultimately have "store_of [StoreDict [(''example.com'', 1)], StrDict [(''a'', ''1'')], StrDict [],
                StrDict [(''a'', ''changed'')]] 0 = Some [(''example.com'', [(''a'', ''1'')])]"
    by simp
  with s g show ?thesis by (intro conjI)
qed

section \<open>Header composition has no effect\<close>

text \<open>
  Claim C9. For a store, a header argument and one-off cookies that are objects of the
  right kinds, \<open>_prepare_headers\<close> returns (it never fails), its result is a new list
  with the entries of the composer on values, every object that existed before the call
  is as it was (the store, the headers and the cookies among them), and a second run
  on the same arguments returns a list with the same entries.
\<close>

theorem prepare_headers_pure:
  assumes "store_of h self_cookies = Some store"
    and "headers_of h headers = Some hv"
    and "cookies_of h cookies = Some cv"
  shows "\<exists>h' r. h_prepare_headers h self_cookies headers cookies domain = Some (h', r)
          \<and> h_read_list h' r = Some (prepare_headers store hv cv domain)
          \<and> length h \<le> r
          \<and> (\<forall>a<length h. h_read h' a = h_read h a)
          \<and> store_of h' self_cookies = Some store
          \<and> headers_of h' headers = Some hv
          \<and> cookies_of h' cookies = Some cv
          \<and> (\<exists>h'' r'. h_prepare_headers h' self_cookies headers cookies domain = Some (h'', r')
                \<and> h_read_list h'' r' = h_read_list h' r
                \<and> h_read_list h'' r = h_read_list h' r)"
proof -
  let ?out = "prepare_headers store hv cv domain"
  let ?new = "[PairList (headers_list_of hv), PairList ?out,
               PairList (snd (split_headers (headers_list_of hv) [] [])),
               StrDict (merged_cookies store cv domain)]"
  let ?h' = "h @ ?new"
  have run1: "h_prepare_headers h self_cookies headers cookies domain = Some (?h', Suc (length h))"
    using assms by (rule h_prepare_headers_eq)
  have out1: "h_read_list ?h' (Suc (length h)) = Some ?out"
    by (simp add: h_read_list_def h_read_def nth_append)
  have ag: "\<forall>a<length h. h_read ?h' a = h_read h a" by (rule agree_append)
  from ag assms(1) have st: "store_of ?h' self_cookies = Some store" by (rule store_of_agree)
  from ag assms(2) have hd: "headers_of ?h' headers = Some hv" by (rule headers_of_agree)
  from ag assms(3) have ck: "cookies_of ?h' cookies = Some cv" by (rule cookies_of_agree)
  have run2: "h_prepare_headers ?h' self_cookies headers cookies domain
      = Some (?h' @ ?new, Suc (length ?h'))"
    using st hd ck by (rule h_prepare_headers_eq)
  have out2: "h_read_list (?h' @ ?new) (Suc (length ?h')) = Some ?out"
    by (simp add: h_read_list_def h_read_def nth_append)
  have keep: "h_read_list (?h' @ ?new) (Suc (length h)) = Some ?out"
    by (simp add: h_read_list_def h_read_def nth_append)
  have again: "\<exists>h'' r'. h_prepare_headers ?h' self_cookies headers cookies domain = Some (h'', r')
                \<and> h_read_list h'' r' = h_read_list ?h' (Suc (length h))
                \<and> h_read_list h'' (Suc (length h)) = h_read_list ?h' (Suc (length h))"
    by (rule exI[of _ "?h' @ ?new"], rule exI[of _ "Suc (length ?h')"])
      (simp only: run2 out2 keep out1 simp_thms)
  have len: "length h \<le> Suc (length h)" by simp
  note parts = conjI[OF run1 conjI[OF out1 conjI[OF len conjI[OF ag conjI[OF st
      conjI[OF hd conjI[OF ck again]]]]]]]
  show ?thesis
    by (rule exI[of _ ?h'], rule exI[of _ "Suc (length h)"], rule parts)
qed

theorem prepare_headers_pure_witness:
  "\<exists>h' r. h_prepare_headers
       [StoreDict [(''example.com'', 1)], StrDict [(''a'', ''1'')],
        PairList [(''Priority'', ''u=1''), (''Cookie'', ''old=0''), (''Accept'', ''x'')],
        StrDict [(''b'', ''9'')]]
       0 (HeadersRefList 2) (Some 3) ''shop.example.com'' = Some (h', r)
     \<and> h_read_list h' r =
         Some [(''Accept'', ''x''), (''cookie'', ''a=1; b=9''), (''Priority'', ''u=1'')]
     \<and> store_of h' 0 = Some [(''example.com'', [(''a'', ''1'')])]
     \<and> h_read_list h' 2 =
         Some [(''Priority'', ''u=1''), (''Cookie'', ''old=0''), (''Accept'', ''x'')]
     \<and> h_read_dict h' 3 = Some [(''b'', ''9'')]"
proof -
  let ?h = "[StoreDict [(''example.com'', 1)], StrDict [(''a'', ''1'')],
        PairList [(''Priority'', ''u=1''), (''Cookie'', ''old=0''), (''Accept'', ''x'')],
        StrDict [(''b'', ''9'')]]"
  let ?l = "[(''Priority'', ''u=1''), (''Cookie'', ''old=0''), (''Accept'', ''x'')]"
  have h1: "store_of ?h 0 = Some [(''example.com'', [(''a'', ''1'')])]" by code_simp
  have h2: "headers_of ?h (HeadersRefList 2) = Some (HeadersList ?l)" by code_simp
  have h3: "cookies_of ?h (Some 3) = Some (Some [(''b'', ''9'')])" by code_simp
  have v: "prepare_headers [(''example.com'', [(''a'', ''1'')])] (HeadersList ?l)
      (Some [(''b'', ''9'')]) ''shop.example.com''
      = [(''Accept'', ''x''), (''cookie'', ''a=1; b=9''), (''Priority'', ''u=1'')]"
    by code_simp
  from prepare_headers_pure[OF h1 h2 h3, of "''shop.example.com''"]
  obtain h' r where run: "h_prepare_headers ?h 0 (HeadersRefList 2) (Some 3) ''shop.example.com''
        = Some (h', r)"
    and out: "h_read_list h' r = Some (prepare_headers [(''example.com'', [(''a'', ''1'')])]
        (HeadersList ?l) (Some [(''b'', ''9'')]) ''shop.example.com'')"
    and st: "store_of h' 0 = Some [(''example.com'', [(''a'', ''1'')])]"
    and hd: "headers_of h' (HeadersRefList 2) = Some (HeadersList ?l)"
    and ck: "cookies_of h' (Some 3) = Some (Some [(''b'', ''9'')])"
    by blast
  from hd have hd': "h_read_list h' 2 = Some ?l" by auto
  from ck have ck': "h_read_dict h' 3 = Some [(''b'', ''9'')]" by auto
  from run out[unfolded v] st hd' ck' show ?thesis by blast
qed

end
